theory Spec2Isabelle
  imports Main
begin

section \<open>Grid and cell model\<close>

text \<open>
  A \<open>Cell\<close> of the source holds \<open>value\<close> (an int or None), the \<open>given\<close> flag and the list
  \<open>candidates\<close>. The field \<open>value\<close> is called \<open>val\<close> here. A grid is the list of rows.
  Reading \<open>cells[i][j]\<close> out of range raises IndexError in the source: a result \<open>None\<close> of
  an operation below stands for that exception, the only one the solver code can raise.
\<close>

record cell =
  val :: "int option"
  given :: bool
  candidates :: "int list"

type_synonym grid = "cell list list"

definition cell_at :: "grid \<Rightarrow> nat \<Rightarrow> nat \<Rightarrow> cell option" where
  "cell_at g i j = (if i < length g \<and> j < length (g ! i) then Some (g ! i ! j) else None)"

definition put_cell :: "grid \<Rightarrow> nat \<Rightarrow> nat \<Rightarrow> cell \<Rightarrow> grid" where
  "put_cell g i j c = g[i := (g ! i)[j := c]]"

definition modify_cell :: "grid \<Rightarrow> nat \<Rightarrow> nat \<Rightarrow> (cell \<Rightarrow> cell) \<Rightarrow> grid option" where
  "modify_cell g i j f =
     (case cell_at g i j of None \<Rightarrow> None | Some c \<Rightarrow> Some (put_cell g i j (f c)))"

definition val_or0 :: "cell \<Rightarrow> int" where
  "val_or0 c = (case val c of None \<Rightarrow> 0 | Some v \<Rightarrow> v)"

definition row_cells :: "nat \<Rightarrow> (nat \<times> nat) list" where
  "row_cells r = map (\<lambda>j. (r, j)) [0..<9]"

definition col_cells :: "nat \<Rightarrow> (nat \<times> nat) list" where
  "col_cells c = map (\<lambda>i. (i, c)) [0..<9]"

definition block_cells :: "nat \<Rightarrow> nat \<Rightarrow> (nat \<times> nat) list" where
  "block_cells br bc = List.product [br..<br + 3] [bc..<bc + 3]"

definition all_cells :: "(nat \<times> nat) list" where
  "all_cells = List.product [0..<9] [0..<9]"

text \<open>The cell at a position inside the grid.\<close>

definition cell_of :: "grid \<Rightarrow> nat \<times> nat \<Rightarrow> cell" where
  "cell_of g p = g ! fst p ! snd p"

section \<open>The grid built from the puzzle text\<close>

text \<open>
  The first half of \<open>sudoku\<close>: the separators \<open>|\<close> are dropped, the text must then have 81
  characters, and the characters are read in row-major order into a grid of nine rows of
  nine cells \<open>Cell(None, False)\<close>. A digit 1 to 9 gives a given cell, \<open>.\<close> and \<open>0\<close> leave the
  cell empty, any other character ends the program with an error.
\<close>

datatype parse_error = InvalidLength nat | InvalidCharacter nat char

definition empty_cell :: cell where
  "empty_cell = \<lparr>val = None, given = False, candidates = []\<rparr>"

definition given_cell :: "int \<Rightarrow> cell" where
  "given_cell n = \<lparr>val = Some n, given = True, candidates = []\<rparr>"

definition digit_value :: "char \<Rightarrow> int" where
  "digit_value ch = int (of_char ch) - 48"

fun parse_cells :: "nat \<Rightarrow> string \<Rightarrow> grid \<Rightarrow> parse_error + grid" where
  "parse_cells idx [] g = Inr g"
| "parse_cells idx (ch # rest) g =
     (if ch \<in> set ''123456789''
      then parse_cells (idx + 1) rest (put_cell g (idx div 9) (idx mod 9) (given_cell (digit_value ch)))
      else if ch \<in> set ''.0'' then parse_cells (idx + 1) rest g
      else Inl (InvalidCharacter idx ch))"

definition parse_puzzle :: "string \<Rightarrow> parse_error + grid" where
  "parse_puzzle puzzle =
     (let p = filter (\<lambda>ch. ch \<noteq> CHR ''|'') puzzle
      in if length p \<noteq> 81 then Inl (InvalidLength (length p))
         else parse_cells 0 p (replicate 9 (replicate 9 empty_cell)))"

section \<open>Constraint checker and backtracking solver\<close>

fun no_match :: "grid \<Rightarrow> int \<Rightarrow> (nat \<times> nat) list \<Rightarrow> bool option" where
  "no_match g num [] = Some True"
| "no_match g num ((i, j) # ps) =
     (case cell_at g i j of
        None \<Rightarrow> None
      | Some c \<Rightarrow> if val_or0 c = num then Some False else no_match g num ps)"

definition is_valid :: "grid \<Rightarrow> int \<Rightarrow> nat \<times> nat \<Rightarrow> bool option" where
  "is_valid g num pos =
     (case pos of (r, c) \<Rightarrow>
        no_match g num
          (row_cells r @ col_cells c @ block_cells ((r div 3) * 3) ((c div 3) * 3)))"

fun first_empty :: "grid \<Rightarrow> (nat \<times> nat) list \<Rightarrow> (nat \<times> nat) option option" where
  "first_empty g [] = Some None"
| "first_empty g ((i, j) # ps) =
     (case cell_at g i j of
        None \<Rightarrow> None
      | Some c \<Rightarrow> if val c = None then Some (Some (i, j)) else first_empty g ps)"

definition find_empty :: "grid \<Rightarrow> (nat \<times> nat) option option" where
  "find_empty g = first_empty g all_cells"

function solve :: "grid \<Rightarrow> (bool \<times> grid) option"
  and solve_nums :: "grid \<Rightarrow> nat \<Rightarrow> nat \<Rightarrow> int list \<Rightarrow> (bool \<times> grid) option" where
  "solve g =
     (case find_empty g of
        None \<Rightarrow> None
      | Some None \<Rightarrow> Some (True, g)
      | Some (Some (r, c)) \<Rightarrow> solve_nums g r c [1..9])"
| "solve_nums g r c [] = Some (False, g)"
| "solve_nums g r c (num # nums) =
     (case is_valid g num (r, c) of
        None \<Rightarrow> None
      | Some ok \<Rightarrow>
          if ok then
            (case modify_cell g r c (\<lambda>x. x\<lparr>val := Some num\<rparr>) of
               None \<Rightarrow> None
             | Some g1 \<Rightarrow>
                 (case solve g1 of
                    None \<Rightarrow> None
                  | Some (found, g2) \<Rightarrow>
                      if found then Some (True, g2)
                      else
                        (case modify_cell g2 r c (\<lambda>x. x\<lparr>val := None\<rparr>) of
                           None \<Rightarrow> None
                         | Some g3 \<Rightarrow> solve_nums g3 r c nums)))
          else solve_nums g r c nums)"
  by pat_completeness auto


lemma length_put_cell [simp]: "length (put_cell g i j y) = length g"
  by (simp add: put_cell_def)

lemma cell_at_put_cell:
  "cell_at (put_cell g i j y) i' j' =
     (if i' = i \<and> j' = j \<and> cell_at g i j \<noteq> None then Some y else cell_at g i' j')"
  by (auto simp: cell_at_def put_cell_def nth_list_update)

lemma put_cell_put_cell [simp]: "put_cell (put_cell g i j y) i j z = put_cell g i j z"
  by (cases "i < length g") (simp_all add: put_cell_def list_update_beyond)

lemma put_cell_same: "cell_at g i j = Some x \<Longrightarrow> put_cell g i j x = g"
  by (auto simp: cell_at_def put_cell_def split: if_splits)

lemma first_empty_Some:
  "first_empty g ps = Some (Some (r, c)) \<Longrightarrow>
     (r, c) \<in> set ps \<and> (\<exists>x. cell_at g r c = Some x \<and> val x = None)"
  by (induction g ps rule: first_empty.induct) (auto split: option.splits if_splits)

lemma modify_restore:
  assumes "modify_cell g r c (\<lambda>x. x\<lparr>val := Some num\<rparr>) = Some g1"
    and "modify_cell g1 r c (\<lambda>x. x\<lparr>val := None\<rparr>) = Some g3"
  shows "modify_cell g r c (\<lambda>x. x\<lparr>val := None\<rparr>) = Some g3"
  using assms by (auto simp: modify_cell_def cell_at_put_cell split: option.splits)

lemma modify_clear_twice:
  assumes "modify_cell g r c (\<lambda>x. x\<lparr>val := None\<rparr>) = Some g3"
    and "modify_cell g3 r c (\<lambda>x. x\<lparr>val := None\<rparr>) = Some g4"
  shows "g4 = g3"
  using assms by (auto simp: modify_cell_def cell_at_put_cell split: option.splits)

lemma modify_clear_empty:
  assumes "cell_at g r c = Some x" and "val x = None"
    and "modify_cell g r c (\<lambda>x. x\<lparr>val := None\<rparr>) = Some g'"
  shows "g' = g"
proof -
  have "x\<lparr>val := None\<rparr> = x" using assms(2) by simp
  then show ?thesis using assms(1,3) by (simp add: modify_cell_def put_cell_same)
qed

lemma solve_restores_dom:
  "solve_solve_nums_dom (Inl g) \<Longrightarrow> solve g = Some (False, g') \<Longrightarrow> g' = g"
  "solve_solve_nums_dom (Inr (g, r, c, nums)) \<Longrightarrow> solve_nums g r c nums = Some (False, g'') \<Longrightarrow>
     g'' = g \<or> modify_cell g r c (\<lambda>x. x\<lparr>val := None\<rparr>) = Some g''"
proof (induction g and g r c nums arbitrary: g' and g'' rule: solve_solve_nums.pinduct)
  case (1 g)
  from "1.prems" "1.hyps" obtain r c where fe: "find_empty g = Some (Some (r, c))"
    and sn: "solve_nums g r c [1..9] = Some (False, g')"
    by (auto simp: solve.psimps split: option.splits)
  from fe obtain x where x: "cell_at g r c = Some x" "val x = None"
    unfolding find_empty_def by (blast dest: first_empty_Some)
  from "1.IH"[OF fe refl refl sn] show ?case
    using modify_clear_empty[OF x] by blast
next
  case (2 g r c)
  then show ?case by (simp add: solve_nums.psimps)
next
  case (3 g r c num nums)
  from "3.prems" "3.hyps" obtain ok where ok: "is_valid g num (r, c) = Some ok"
    by (auto simp: solve_nums.psimps split: option.splits)
  show ?case
  proof (cases ok)
    case False
    with ok "3.prems" "3.hyps" have "solve_nums g r c nums = Some (False, g'')"
      by (simp add: solve_nums.psimps)
    from "3.IH"(3)[OF ok False this] show ?thesis .
  next
    case True
    with ok "3.prems" "3.hyps" obtain g1 g2 g3 where
      m1: "modify_cell g r c (\<lambda>x. x\<lparr>val := Some num\<rparr>) = Some g1"
      and s1: "solve g1 = Some (False, g2)"
      and m2: "modify_cell g2 r c (\<lambda>x. x\<lparr>val := None\<rparr>) = Some g3"
      and s2: "solve_nums g3 r c nums = Some (False, g'')"
      by (auto simp: solve_nums.psimps split: option.splits if_splits)
    from "3.IH"(1)[OF ok True m1 s1] have g2: "g2 = g1" .
    from modify_restore[OF m1 m2[unfolded g2]]
    have m3: "modify_cell g r c (\<lambda>x. x\<lparr>val := None\<rparr>) = Some g3" .
    from "3.IH"(2)[OF ok True m1 s1 refl _ m2 s2]
    have "g'' = g3 \<or> modify_cell g3 r c (\<lambda>x. x\<lparr>val := None\<rparr>) = Some g''" by simp
    then have "g'' = g3" using modify_clear_twice[OF m3] by blast
    with m3 show ?thesis by simp
  qed
qed

definition is_empty_at :: "grid \<Rightarrow> nat \<times> nat \<Rightarrow> bool" where
  "is_empty_at g p = (case cell_at g (fst p) (snd p) of None \<Rightarrow> False | Some x \<Rightarrow> val x = None)"

definition empties_excl :: "grid \<Rightarrow> nat \<times> nat \<Rightarrow> nat" where
  "empties_excl g q = length (filter (\<lambda>p. p \<noteq> q \<and> is_empty_at g p) all_cells)"

definition empties :: "grid \<Rightarrow> nat" where
  "empties g = length (filter (is_empty_at g) all_cells)"

lemma filter_excl_less:
  "q \<in> set xs \<Longrightarrow> P q \<Longrightarrow> length (filter (\<lambda>p. p \<noteq> q \<and> P p) xs) < length (filter P xs)"
proof (induction xs)
  case Nil
  then show ?case by simp
next
  case (Cons a xs)
  have le: "length (filter (\<lambda>p. p \<noteq> q \<and> P p) xs) \<le> length (filter P xs)"
    by (induction xs) auto
  show ?case
  proof (cases "a = q")
    case True
    with Cons.prems le show ?thesis by simp
  next
    case False
    with Cons show ?thesis by auto
  qed
qed

lemma empties_find_empty:
  assumes "find_empty g = Some (Some (r, c))"
  shows "empties_excl g (r, c) < empties g"
proof -
  from assms have "(r, c) \<in> set all_cells" "is_empty_at g (r, c)"
    unfolding find_empty_def is_empty_at_def by (auto dest: first_empty_Some)
  then show ?thesis unfolding empties_def empties_excl_def by (rule filter_excl_less)
qed

lemma is_empty_at_fill:
  assumes "modify_cell g r c (\<lambda>x. x\<lparr>val := Some num\<rparr>) = Some g1"
  shows "is_empty_at g1 p = (p \<noteq> (r, c) \<and> is_empty_at g p)"
  using assms
  by (cases p) (auto simp: modify_cell_def is_empty_at_def cell_at_put_cell split: option.splits if_splits)

lemma is_empty_at_clear:
  assumes "modify_cell g r c (\<lambda>x. x\<lparr>val := None\<rparr>) = Some g1"
  shows "(p \<noteq> (r, c) \<and> is_empty_at g1 p) = (p \<noteq> (r, c) \<and> is_empty_at g p)"
  using assms
  by (cases p) (auto simp: modify_cell_def is_empty_at_def cell_at_put_cell split: option.splits if_splits)

lemma empties_fill:
  "modify_cell g r c (\<lambda>x. x\<lparr>val := Some num\<rparr>) = Some g1 \<Longrightarrow> empties g1 = empties_excl g (r, c)"
  unfolding empties_def empties_excl_def by (simp add: is_empty_at_fill cong: filter_cong)

lemma empties_excl_fill:
  "modify_cell g r c (\<lambda>x. x\<lparr>val := Some num\<rparr>) = Some g1 \<Longrightarrow>
     empties_excl g1 (r, c) = empties_excl g (r, c)"
  unfolding empties_excl_def by (simp add: is_empty_at_fill cong: filter_cong)

lemma empties_excl_clear:
  "modify_cell g r c (\<lambda>x. x\<lparr>val := None\<rparr>) = Some g1 \<Longrightarrow>
     empties_excl g1 (r, c) = empties_excl g (r, c)"
  unfolding empties_excl_def by (simp add: is_empty_at_clear cong: filter_cong)

termination solve
proof (relation "inv_image (less_than <*lex*> less_than)
    (\<lambda>x. case x of Inl g \<Rightarrow> (empties g, 10)
             | Inr (g, r, c, nums) \<Rightarrow> (empties_excl g (r, c) + 1, length nums))", goal_cases)
  case 1
  then show ?case by (intro wf_inv_image wf_lex_prod wf_less_than)
next
  case (2 g x2 x2a r c)
  then have "find_empty g = Some (Some (r, c))" by simp
  then have "empties_excl g (r, c) < empties g" by (rule empties_find_empty)
  then show ?case by auto
next
  case (3 g r c num nums ok g1)
  then show ?case by (simp add: empties_fill)
next
  case (4 g r c num nums ok g1 res found g2 g3)
  from 4 have s1: "solve g1 = Some (False, g2)" by simp
  from solve_restores_dom(1)[OF 4(8) s1] have "g2 = g1" .
  with 4 have "empties_excl g3 (r, c) = empties_excl g (r, c)"
    by (simp add: empties_excl_clear empties_excl_fill)
  then show ?case by simp
next
  case 5
  then show ?case by simp
qed

declare solve.simps [simp del]

section \<open>Strategies\<close>

text \<open>
  A \<open>for\<close> loop over a list whose body may raise: the state after the last element, or
  \<open>None\<close> as soon as one run of the body raises.
\<close>

fun for_each :: "('a \<Rightarrow> 's \<Rightarrow> 's option) \<Rightarrow> 'a list \<Rightarrow> 's \<Rightarrow> 's option" where
  "for_each body [] s = Some s"
| "for_each body (x # xs) s =
     (case body x s of None \<Rightarrow> None | Some s' \<Rightarrow> for_each body xs s')"

text \<open>
  The state of an \<open>apply\<close> pass is the flag \<open>changed\<close> and the grid. The units a pass
  scans: the blocks in the order of \<open>for br in range(0, 9, 3): for bc in range(0, 9, 3)\<close>,
  the rows and the columns in ascending order.
\<close>

definition block_units :: "(nat \<times> nat) list list" where
  "block_units = map (\<lambda>(br, bc). block_cells br bc) (List.product [0, 3, 6] [0, 3, 6])"

definition row_units :: "(nat \<times> nat) list list" where
  "row_units = map row_cells [0..<9]"

definition col_units :: "(nat \<times> nat) list list" where
  "col_units = map col_cells [0..<9]"

subsection \<open>SingleCandidateStrategy\<close>

definition single_candidate_cell :: "nat \<times> nat \<Rightarrow> bool \<times> grid \<Rightarrow> (bool \<times> grid) option" where
  "single_candidate_cell p s =
     (case s of (changed, g) \<Rightarrow>
        (case cell_at g (fst p) (snd p) of
           None \<Rightarrow> None
         | Some cell \<Rightarrow>
             if val cell = None \<and> length (candidates cell) = 1
             then Some (True, put_cell g (fst p) (snd p)
                          (cell\<lparr>val := Some (hd (candidates cell)), given := False\<rparr>))
             else Some (changed, g)))"

definition single_candidate_apply :: "grid \<Rightarrow> (bool \<times> grid) option" where
  "single_candidate_apply g = for_each single_candidate_cell all_cells (False, g)"

subsection \<open>SubgridSingleStrategy, RowSingleStrategy, ColumnSingleStrategy\<close>

text \<open>
  The list \<open>positions\<close> of the source: the cells of the unit, in scan order, that have no
  value and have \<open>n\<close> among their candidates. The row and column strategies keep only the
  column or row index of each position; the full coordinates are kept here.
\<close>

fun collect_positions :: "grid \<Rightarrow> int \<Rightarrow> (nat \<times> nat) list \<Rightarrow> (nat \<times> nat) list option" where
  "collect_positions g n [] = Some []"
| "collect_positions g n (p # ps) =
     (case cell_at g (fst p) (snd p) of
        None \<Rightarrow> None
      | Some cell \<Rightarrow>
          (case collect_positions g n ps of
             None \<Rightarrow> None
           | Some qs \<Rightarrow>
               Some (if val cell = None \<and> n \<in> set (candidates cell) then p # qs else qs)))"

definition fill_single :: "(nat \<times> nat) list \<times> int \<Rightarrow> bool \<times> grid \<Rightarrow> (bool \<times> grid) option" where
  "fill_single un s =
     (case un of (unit, n) \<Rightarrow> case s of (changed, g) \<Rightarrow>
        (case collect_positions g n unit of
           None \<Rightarrow> None
         | Some positions \<Rightarrow>
             if length positions = 1
             then (case modify_cell g (fst (hd positions)) (snd (hd positions))
                          (\<lambda>x. x\<lparr>val := Some n, given := False, candidates := []\<rparr>) of
                     None \<Rightarrow> None
                   | Some g' \<Rightarrow> Some (True, g'))
             else Some (changed, g)))"

definition subgrid_single_apply :: "grid \<Rightarrow> (bool \<times> grid) option" where
  "subgrid_single_apply g = for_each fill_single (List.product block_units [1..9]) (False, g)"

definition row_single_apply :: "grid \<Rightarrow> (bool \<times> grid) option" where
  "row_single_apply g = for_each fill_single (List.product row_units [1..9]) (False, g)"

definition column_single_apply :: "grid \<Rightarrow> (bool \<times> grid) option" where
  "column_single_apply g = for_each fill_single (List.product col_units [1..9]) (False, g)"

subsection \<open>Naked pairs\<close>

text \<open>
  The cells of a unit without a value whose number of candidates passes \<open>ok\<close>, each with
  its candidate list, in scan order: \<open>pairs\<close> of the pair strategies (two candidates) and
  \<open>candidates\<close> of the triplet strategies (two or three).
\<close>

fun collect_cands ::
  "grid \<Rightarrow> (nat \<Rightarrow> bool) \<Rightarrow> (nat \<times> nat) list \<Rightarrow> ((nat \<times> nat) \<times> int list) list option" where
  "collect_cands g ok [] = Some []"
| "collect_cands g ok (p # ps) =
     (case cell_at g (fst p) (snd p) of
        None \<Rightarrow> None
      | Some cell \<Rightarrow>
          (case collect_cands g ok ps of
             None \<Rightarrow> None
           | Some qs \<Rightarrow>
               Some (if val cell = None \<and> ok (length (candidates cell))
                     then (p, candidates cell) # qs else qs)))"

text \<open>
  The nested scan \<open>for idx1: for idx2 in range(idx1 + 1, len(pairs))\<close> that stops at the
  first two entries with the same set of candidates.
\<close>

fun find_partner :: "int list \<Rightarrow> ((nat \<times> nat) \<times> int list) list \<Rightarrow> (nat \<times> nat) option" where
  "find_partner cand1 [] = None"
| "find_partner cand1 (pc # rest) =
     (if set cand1 = set (snd pc) then Some (fst pc) else find_partner cand1 rest)"

fun first_pair ::
  "((nat \<times> nat) \<times> int list) list \<Rightarrow> ((nat \<times> nat) \<times> (nat \<times> nat) \<times> int list) option" where
  "first_pair [] = None"
| "first_pair (pc # rest) =
     (case find_partner (snd pc) rest of
        Some p2 \<Rightarrow> Some (fst pc, p2, snd pc)
      | None \<Rightarrow> first_pair rest)"

text \<open>
  The elimination at one cell of the unit: skipped for the cells of the pair or triplet
  (\<open>keep\<close>) and for cells with a value; \<open>changed\<close> is set when the new list differs
  (\<open>old\<close> is \<open>before\<close> of the source).
\<close>

definition eliminate_cell ::
  "(nat \<times> nat) list \<Rightarrow> int list \<Rightarrow> nat \<times> nat \<Rightarrow> bool \<times> grid \<Rightarrow> (bool \<times> grid) option" where
  "eliminate_cell keep nums p s =
     (case s of (changed, g) \<Rightarrow>
        if p \<in> set keep then Some (changed, g)
        else
          (case cell_at g (fst p) (snd p) of
             None \<Rightarrow> None
           | Some cell \<Rightarrow>
               if val cell = None
               then (let old = candidates cell;
                         new = filter (\<lambda>n. n \<notin> set nums) old
                     in Some (changed \<or> new \<noteq> old,
                              put_cell g (fst p) (snd p) (cell\<lparr>candidates := new\<rparr>)))
               else Some (changed, g)))"

definition naked_pair_unit :: "(nat \<times> nat) list \<Rightarrow> bool \<times> grid \<Rightarrow> (bool \<times> grid) option" where
  "naked_pair_unit unit s =
     (case collect_cands (snd s) (\<lambda>k. k = 2) unit of
        None \<Rightarrow> None
      | Some pairs \<Rightarrow>
          (case first_pair pairs of
             None \<Rightarrow> Some s
           | Some (p1, p2, cand1) \<Rightarrow> for_each (eliminate_cell [p1, p2] cand1) unit s))"

text \<open>
  The column strategy reads, after an elimination, the cells of the column and then every
  cell of the grid (loops that print or do nothing); the reads can still raise.
\<close>

definition readable :: "grid \<Rightarrow> (nat \<times> nat) list \<Rightarrow> bool" where
  "readable g ps = list_all (\<lambda>p. cell_at g (fst p) (snd p) \<noteq> None) ps"

definition naked_pair_column_unit ::
  "(nat \<times> nat) list \<Rightarrow> bool \<times> grid \<Rightarrow> (bool \<times> grid) option" where
  "naked_pair_column_unit unit s =
     (case collect_cands (snd s) (\<lambda>k. k = 2) unit of
        None \<Rightarrow> None
      | Some pairs \<Rightarrow>
          (case first_pair pairs of
             None \<Rightarrow> Some s
           | Some (p1, p2, cand1) \<Rightarrow>
               (case for_each (eliminate_cell [p1, p2] cand1) unit s of
                  None \<Rightarrow> None
                | Some s' \<Rightarrow> if readable (snd s') (unit @ all_cells) then Some s' else None)))"

definition naked_pair_column_apply :: "grid \<Rightarrow> (bool \<times> grid) option" where
  "naked_pair_column_apply g = for_each naked_pair_column_unit col_units (False, g)"

definition naked_pair_row_apply :: "grid \<Rightarrow> (bool \<times> grid) option" where
  "naked_pair_row_apply g = for_each naked_pair_unit row_units (False, g)"

definition naked_pair_subgrid_apply :: "grid \<Rightarrow> (bool \<times> grid) option" where
  "naked_pair_subgrid_apply g = for_each naked_pair_unit block_units (False, g)"

subsection \<open>Naked triplets\<close>

text \<open>\<open>itertools.combinations\<close>: the sublists of \<open>k\<close> elements, in lexicographic index order.\<close>

fun combinations :: "'a list \<Rightarrow> nat \<Rightarrow> 'a list list" where
  "combinations xs 0 = [[]]"
| "combinations [] (Suc k) = []"
| "combinations (x # xs) (Suc k) = map ((#) x) (combinations xs k) @ combinations xs (Suc k)"

text \<open>
  \<open>union\<close> of the source is a set; the pass uses its size and membership only, so it is kept
  as a list without duplicates.
\<close>

definition union_cands :: "((nat \<times> nat) \<times> int list) list \<Rightarrow> int list" where
  "union_cands combo = remdups (concat (map snd combo))"

definition first_triplet ::
  "((nat \<times> nat) \<times> int list) list \<Rightarrow> ((nat \<times> nat) list \<times> int list) option" where
  "first_triplet cs =
     (case List.find (\<lambda>combo. length (union_cands combo) = 3) (combinations cs 3) of
        None \<Rightarrow> None
      | Some combo \<Rightarrow> Some (map fst combo, union_cands combo))"

definition naked_triplet_unit :: "(nat \<times> nat) list \<Rightarrow> bool \<times> grid \<Rightarrow> (bool \<times> grid) option" where
  "naked_triplet_unit unit s =
     (case collect_cands (snd s) (\<lambda>k. 2 \<le> k \<and> k \<le> 3) unit of
        None \<Rightarrow> None
      | Some cs \<Rightarrow>
          (case first_triplet cs of
             None \<Rightarrow> Some s
           | Some (positions, nums) \<Rightarrow> for_each (eliminate_cell positions nums) unit s))"

definition naked_triplet_column_apply :: "grid \<Rightarrow> (bool \<times> grid) option" where
  "naked_triplet_column_apply g = for_each naked_triplet_unit col_units (False, g)"

definition naked_triplet_row_apply :: "grid \<Rightarrow> (bool \<times> grid) option" where
  "naked_triplet_row_apply g = for_each naked_triplet_unit row_units (False, g)"

definition naked_triplet_subgrid_apply :: "grid \<Rightarrow> (bool \<times> grid) option" where
  "naked_triplet_subgrid_apply g = for_each naked_triplet_unit block_units (False, g)"

subsection \<open>The strategy list\<close>

datatype strategy =
    SingleCandidate | SubgridSingle | RowSingle | ColumnSingle
  | NakedPairColumn | NakedPairRow | NakedPairSubgrid
  | NakedTripletColumn | NakedTripletRow | NakedTripletSubgrid

fun apply_strategy :: "strategy \<Rightarrow> grid \<Rightarrow> (bool \<times> grid) option" where
  "apply_strategy SingleCandidate g = single_candidate_apply g"
| "apply_strategy SubgridSingle g = subgrid_single_apply g"
| "apply_strategy RowSingle g = row_single_apply g"
| "apply_strategy ColumnSingle g = column_single_apply g"
| "apply_strategy NakedPairColumn g = naked_pair_column_apply g"
| "apply_strategy NakedPairRow g = naked_pair_row_apply g"
| "apply_strategy NakedPairSubgrid g = naked_pair_subgrid_apply g"
| "apply_strategy NakedTripletColumn g = naked_triplet_column_apply g"
| "apply_strategy NakedTripletRow g = naked_triplet_row_apply g"
| "apply_strategy NakedTripletSubgrid g = naked_triplet_subgrid_apply g"

text \<open>The list \<open>strateties\<close> of \<open>guided_solver\<close> (the name is the source's).\<close>

definition strateties :: "strategy list" where
  "strateties =
     [SingleCandidate, SubgridSingle, RowSingle, ColumnSingle,
      NakedPairColumn, NakedPairRow, NakedPairSubgrid,
      NakedTripletColumn, NakedTripletRow, NakedTripletSubgrid]"

section \<open>Candidate engine\<close>

text \<open>\<open>[n for n in range(1, 10) if is_valid(cells, n, (i, j))]\<close>\<close>

fun valid_numbers :: "grid \<Rightarrow> nat \<times> nat \<Rightarrow> int list \<Rightarrow> int list option" where
  "valid_numbers g p [] = Some []"
| "valid_numbers g p (n # ns) =
     (case is_valid g n p of
        None \<Rightarrow> None
      | Some ok \<Rightarrow>
          (case valid_numbers g p ns of
             None \<Rightarrow> None
           | Some vs \<Rightarrow> Some (if ok then n # vs else vs)))"

definition candidates_cell :: "nat \<times> nat \<Rightarrow> grid \<Rightarrow> grid option" where
  "candidates_cell p g =
     (case cell_at g (fst p) (snd p) of
        None \<Rightarrow> None
      | Some cell \<Rightarrow>
          if val cell = None
          then (case valid_numbers g p [1..9] of
                  None \<Rightarrow> None
                | Some vs \<Rightarrow> Some (put_cell g (fst p) (snd p) (cell\<lparr>candidates := vs\<rparr>)))
          else Some g)"

definition get_cell_candidates :: "grid \<Rightarrow> grid option" where
  "get_cell_candidates g = for_each candidates_cell all_cells g"

text \<open>
  \<open>remove_filled_candidates\<close>. The argument \<open>filled\<close> of the source is a set of positions;
  the list here is the order in which the loop visits it. \<open>val in peer.candidates\<close> is false
  when \<open>val\<close> is None, and \<open>remove\<close> deletes the first occurrence.
\<close>

definition remove_from_peer :: "int option \<Rightarrow> nat \<times> nat \<Rightarrow> grid \<Rightarrow> grid option" where
  "remove_from_peer v p g =
     (case cell_at g (fst p) (snd p) of
        None \<Rightarrow> None
      | Some peer \<Rightarrow>
          (case v of
             None \<Rightarrow> Some g
           | Some x \<Rightarrow>
               if val peer = None \<and> x \<in> set (candidates peer)
               then Some (put_cell g (fst p) (snd p)
                            (peer\<lparr>candidates := remove1 x (candidates peer)\<rparr>))
               else Some g))"

definition fill_peers :: "nat \<Rightarrow> nat \<Rightarrow> (nat \<times> nat) list" where
  "fill_peers r c =
     concat (map (\<lambda>k. [(r, k), (k, c)]) [0..<9]) @ block_cells ((r div 3) * 3) ((c div 3) * 3)"

definition remove_filled :: "nat \<times> nat \<Rightarrow> grid \<Rightarrow> grid option" where
  "remove_filled p g =
     (case cell_at g (fst p) (snd p) of
        None \<Rightarrow> None
      | Some cell \<Rightarrow>
          for_each (remove_from_peer (val cell)) (fill_peers (fst p) (snd p))
            (put_cell g (fst p) (snd p) (cell\<lparr>candidates := []\<rparr>)))"

definition remove_filled_candidates :: "grid \<Rightarrow> (nat \<times> nat) list \<Rightarrow> grid option" where
  "remove_filled_candidates g filled = for_each remove_filled filled g"

section \<open>Guided orchestrator\<close>

text \<open>
  The state that \<open>guided_solver\<close> carries round its loop. The sets \<open>before_filled\<close>,
  \<open>after_filled\<close>, \<open>last_changes\<close> and \<open>prev_changes\<close> of the source are kept as lists in
  row-major order.
\<close>

record gstate =
  cells :: grid
  strategies_idx :: nat
  prev_changes :: "(nat \<times> nat) list"
  last_changes :: "(nat \<times> nat) list"

fun filled_positions :: "grid \<Rightarrow> (nat \<times> nat) list \<Rightarrow> (nat \<times> nat) list option" where
  "filled_positions g [] = Some []"
| "filled_positions g (p # ps) =
     (case cell_at g (fst p) (snd p) of
        None \<Rightarrow> None
      | Some cell \<Rightarrow>
          (case filled_positions g ps of
             None \<Rightarrow> None
           | Some qs \<Rightarrow> Some (if val cell \<noteq> None then p # qs else qs)))"

text \<open>
  One run of the loop body, up to the \<open>break\<close> or the prompt. The flag of the result says
  that the loop was left through \<open>break\<close>, after \<open>Puzzle solved!\<close>. \<open>display_grid_guided\<close>
  reads every cell and prints.
\<close>

definition guided_body :: "gstate \<Rightarrow> (bool \<times> gstate) option" where
  "guided_body st =
     (if length strateties \<le> strategies_idx st then None
      else
        (case filled_positions (cells st) all_cells of
           None \<Rightarrow> None
         | Some before_filled \<Rightarrow>
        (case apply_strategy (strateties ! strategies_idx st) (cells st) of
           None \<Rightarrow> None
         | Some (changed, g1) \<Rightarrow>
        (case filled_positions g1 all_cells of
           None \<Rightarrow> None
         | Some after_filled \<Rightarrow>
        (let last = filter (\<lambda>p. p \<notin> set before_filled) after_filled in
        (case (if last \<noteq> [] then remove_filled_candidates g1 last else Some g1) of
           None \<Rightarrow> None
         | Some g2 \<Rightarrow>
             if \<not> readable g2 all_cells then None
             else if changed
             then Some (False, \<lparr>cells = g2, strategies_idx = strategies_idx st,
                               prev_changes = last, last_changes = last\<rparr>)
             else if length strateties \<le> strategies_idx st + 1
             then (case find_empty g2 of
                     None \<Rightarrow> None
                   | Some e \<Rightarrow>
                       Some (e = None, \<lparr>cells = g2, strategies_idx = 0,
                                        prev_changes = last, last_changes = last\<rparr>))
             else Some (False, \<lparr>cells = g2, strategies_idx = strategies_idx st + 1,
                               prev_changes = last, last_changes = last\<rparr>)))))))"

text \<open>
  The two ways out of the loop: the \<open>break\<close> after \<open>Puzzle solved!\<close>, and the answer
  \<open>n\<close> to the prompt. The answers to the prompt are the list \<open>answers\<close> (\<open>True\<close> for
  \<open>y\<close>); when they run out before the loop ends, the loop is waiting at the prompt and the
  result carries no signal.
\<close>

datatype signal = Solved | Stopped

fun guided_loop :: "bool list \<Rightarrow> gstate \<Rightarrow> (signal option \<times> gstate) option" where
  "guided_loop [] st =
     (case guided_body st of
        None \<Rightarrow> None
      | Some (solved, st') \<Rightarrow> Some (if solved then Some Solved else None, st'))"
| "guided_loop (answer # answers) st =
     (case guided_body st of
        None \<Rightarrow> None
      | Some (solved, st') \<Rightarrow>
          if solved then Some (Some Solved, st')
          else if answer then guided_loop answers st'
          else Some (Some Stopped, st'))"

definition guided_start :: "grid \<Rightarrow> gstate" where
  "guided_start g = \<lparr>cells = g, strategies_idx = 0, prev_changes = [], last_changes = []\<rparr>"

definition guided_solver :: "grid \<Rightarrow> bool list \<Rightarrow> (signal option \<times> gstate) option" where
  "guided_solver g answers =
     (case get_cell_candidates g of
        None \<Rightarrow> None
      | Some g0 \<Rightarrow> guided_loop answers (guided_start g0))"

section \<open>Example puzzles\<close>

definition puzzle_grid :: "string \<Rightarrow> grid" where
  "puzzle_grid s = (case parse_puzzle s of Inr g \<Rightarrow> g | Inl e \<Rightarrow> [])"

text \<open>A solved grid.\<close>

definition p_solved :: string where
  "p_solved =
     ''534678912|672195348|198342567|859761423|426853791|713924856|961537284|287419635|345286179''"

text \<open>
  The solved grid without the cells (6,3), (6,8), (7,3) and (7,8), which hold 5, 4, 4
  and 5: the puzzle has two completions.
\<close>

definition p_two :: string where
  "p_two =
     ''534678912|672195348|198342567|859761423|426853791|713924856|961.3728.|287.1963.|345286179''"

definition p_two_other :: string where
  "p_two_other =
     ''534678912|672195348|198342567|859761423|426853791|713924856|961437285|287519634|345286179''"

text \<open>Eighty-one times the digit 5.\<close>

definition p_fives :: string where
  "p_fives = replicate 81 CHR ''5''"

text \<open>
  The first cell can take 5 or 9 and the second cell has no possible value: the first row
  holds 1 to 4 and 6 to 8, and the second column holds 5 and 9.
\<close>

definition p_backtrack :: string where
  "p_backtrack =
     ''..1234678|.........|.........|.5.......|.9.......|.........|.........|.........|.........''"

text \<open>The solved grid without its first cell.\<close>

definition p_one :: string where
  "p_one =
     ''.34678912|672195348|198342567|859761423|426853791|713924856|961537284|287419635|345286179''"

text \<open>
  The solved grid with a second 3 in its first row, at (0,1), and without its last cell.
\<close>

definition p_dup :: string where
  "p_dup =
     ''334678912|672195348|198342567|859761423|426853791|713924856|961537284|287419635|34528617.''"

text \<open>
  Two 3s in the first row; its third cell has no possible value, as the row holds 3 to 9
  and the column holds 1 and 2.
\<close>

definition p_dup_stuck :: string where
  "p_dup_stuck =
     ''33.456789|..1......|..2......|.........|.........|.........|.........|.........|.........''"

text \<open>A puzzle with a naked pair in the block at (3,3) and another in the block at (3,6).\<close>

definition p_pairs :: string where
  "p_pairs =
     ''534678912|672195348|198342567|85976.42.|42685..9.|71.92.856|961537284|287419635|345286.79''"

text \<open>The grid of a puzzle after the recomputation of all candidates.\<close>

definition candidates_grid :: "string \<Rightarrow> grid" where
  "candidates_grid s = (case get_cell_candidates (puzzle_grid s) of Some g \<Rightarrow> g | None \<Rightarrow> [])"

text \<open>The grid that \<open>solve\<close> leaves for a puzzle.\<close>

definition solution_grid :: "string \<Rightarrow> grid" where
  "solution_grid s = (case solve (puzzle_grid s) of Some (found, g) \<Rightarrow> g | None \<Rightarrow> [])"

text \<open>The grid of candidates of a puzzle after a pass of \<open>SingleCandidateStrategy\<close>.\<close>

definition after_single :: "string \<Rightarrow> grid" where
  "after_single s =
     (case single_candidate_apply (candidates_grid s) of Some (changed, g) \<Rightarrow> g | None \<Rightarrow> [])"

section \<open>Solved and consistent grids\<close>

text \<open>
  The twenty-seven units. A unit is complete when it contains each of the numbers 1 to 9
  exactly once; a grid is solved when every cell has a value and every unit is complete.
\<close>

definition all_units :: "(nat \<times> nat) list list" where
  "all_units = row_units @ col_units @ block_units"

definition unit_complete :: "grid \<Rightarrow> (nat \<times> nat) list \<Rightarrow> bool" where
  "unit_complete g u =
     list_all (\<lambda>n. count_list (map (\<lambda>p. val (cell_of g p)) u) (Some n) = 1) [1..9]"

definition completely_filled :: "grid \<Rightarrow> bool" where
  "completely_filled g = list_all (\<lambda>p. val (cell_of g p) \<noteq> None) all_cells"

definition solved_grid :: "grid \<Rightarrow> bool" where
  "solved_grid g = (completely_filled g \<and> list_all (unit_complete g) all_units)"

text \<open>
  A grid is consistent when every resolved cell holds a number from 1 to 9 that no other
  cell of its row, its column and its block holds.
\<close>

definition unit_consistent :: "grid \<Rightarrow> (nat \<times> nat) list \<Rightarrow> bool" where
  "unit_consistent g u =
     list_all (\<lambda>p. case val (cell_of g p) of
                     None \<Rightarrow> True
                   | Some n \<Rightarrow> 1 \<le> n \<and> n \<le> 9 \<and>
                       list_all (\<lambda>q. q = p \<or> val (cell_of g q) \<noteq> Some n) u) u"

definition consistent :: "grid \<Rightarrow> bool" where
  "consistent g = list_all (unit_consistent g) all_units"

text \<open>\<open>keeps_values g h\<close>: every resolved cell of \<open>g\<close> has the same value in \<open>h\<close>.\<close>

definition keeps_values :: "grid \<Rightarrow> grid \<Rightarrow> bool" where
  "keeps_values g h =
     list_all (\<lambda>p. val (cell_of g p) = None \<or> val (cell_of h p) = val (cell_of g p)) all_cells"

text \<open>
  The values of a grid in row-major order (0 for a cell without a value), and the
  lexicographic order on such lists.
\<close>

definition grid_values :: "grid \<Rightarrow> int list" where
  "grid_values g = map (\<lambda>p. val_or0 (cell_of g p)) all_cells"

fun lex_le :: "int list \<Rightarrow> int list \<Rightarrow> bool" where
  "lex_le [] ys = True"
| "lex_le (x # xs) [] = False"
| "lex_le (x # xs) (y # ys) = (x < y \<or> (x = y \<and> lex_le xs ys))"

text \<open>
  The hidden-single pass as the specification words it. For each unit of the partition
  and each number 1 to 9, units in ascending order and numbers ascending: if exactly one
  cell of the unit without a value has the number among its candidates, the value of that
  cell is set to the number and its candidates are cleared. The pass counts its fills.
\<close>

definition unresolved_with :: "grid \<Rightarrow> int \<Rightarrow> nat \<times> nat \<Rightarrow> bool" where
  "unresolved_with g n p = (val (cell_of g p) = None \<and> n \<in> set (candidates (cell_of g p)))"

definition hidden_single_step :: "(nat \<times> nat) list \<times> int \<Rightarrow> nat \<times> grid \<Rightarrow> nat \<times> grid" where
  "hidden_single_step un s =
     (case un of (unit, n) \<Rightarrow> case s of (fills, g) \<Rightarrow>
        (case filter (unresolved_with g n) unit of
           [p] \<Rightarrow> (fills + 1,
                   put_cell g (fst p) (snd p) ((cell_of g p)\<lparr>val := Some n, candidates := []\<rparr>))
         | _ \<Rightarrow> (fills, g)))"

definition hidden_single_pass :: "(nat \<times> nat) list list \<Rightarrow> grid \<Rightarrow> nat \<times> grid" where
  "hidden_single_pass units g =
     foldl (\<lambda>s un. hidden_single_step un s) (0, g) (List.product units [1..9])"

text \<open>\<open>same_visible g h\<close>: every cell has the same value and the same candidates in both.\<close>

definition same_visible :: "grid \<Rightarrow> grid \<Rightarrow> bool" where
  "same_visible g h =
     list_all (\<lambda>p. val (cell_of g p) = val (cell_of h p) \<and>
                   candidates (cell_of g p) = candidates (cell_of h p)) all_cells"

text \<open>
  The candidate lists of the source stand for the candidate sets of the specification:
  \<open>get_cell_candidates\<close> builds them without repetition, and the strategies and
  \<open>remove_filled_candidates\<close> only take numbers out of them.
\<close>

definition distinct_candidates :: "grid \<Rightarrow> bool" where
  "distinct_candidates g = list_all (\<lambda>p. distinct (candidates (cell_of g p))) all_cells"

text \<open>
  The pairs of a unit on a grid, and the candidates of a cell of the unit once the first
  pair of the unit, if there is one, has been acted on: the two numbers of the pair are
  removed from every other cell of the unit without a value.
\<close>

definition unit_pairs :: "grid \<Rightarrow> (nat \<times> nat) list \<Rightarrow> ((nat \<times> nat) \<times> int list) list" where
  "unit_pairs g u =
     map (\<lambda>p. (p, candidates (cell_of g p)))
       (filter (\<lambda>p. val (cell_of g p) = None \<and> length (candidates (cell_of g p)) = 2) u)"

definition pair_eliminated :: "grid \<Rightarrow> (nat \<times> nat) list \<Rightarrow> nat \<times> nat \<Rightarrow> int list" where
  "pair_eliminated g u p =
     (case first_pair (unit_pairs g u) of
        None \<Rightarrow> candidates (cell_of g p)
      | Some (p1, p2, cand1) \<Rightarrow>
          if p \<in> set [p1, p2] \<or> val (cell_of g p) \<noteq> None then candidates (cell_of g p)
          else filter (\<lambda>n. n \<notin> set cand1) (candidates (cell_of g p)))"

fun disjoint_units :: "(nat \<times> nat) list list \<Rightarrow> bool" where
  "disjoint_units [] = True"
| "disjoint_units (u # us) = (list_all (\<lambda>v. list_all (\<lambda>p. p \<notin> set v) u) us \<and> disjoint_units us)"

text \<open>
  \<open>fills g h\<close>: the grid \<open>h\<close> keeps the values of the resolved cells of \<open>g\<close>, has no
  empty cell, and every cell that is empty in \<open>g\<close> holds in \<open>h\<close> a number from 1 to 9 that
  no other cell of its row, its column and its block holds in \<open>h\<close>. The resolved cells of
  \<open>g\<close> are not compared with each other.
\<close>

definition unit_fills :: "grid \<Rightarrow> grid \<Rightarrow> (nat \<times> nat) list \<Rightarrow> bool" where
  "unit_fills g h u =
     list_all (\<lambda>p. val (cell_of g p) \<noteq> None \<or>
                 (case val (cell_of h p) of
                    None \<Rightarrow> False
                  | Some n \<Rightarrow> 1 \<le> n \<and> n \<le> 9 \<and>
                      list_all (\<lambda>q. q = p \<or> val (cell_of h q) \<noteq> Some n) u)) u"

definition fills :: "grid \<Rightarrow> grid \<Rightarrow> bool" where
  "fills g h = (keeps_values g h \<and> completely_filled h \<and> list_all (unit_fills g h) all_units)"

section \<open>Well-formed grids\<close>

text \<open>
  The grid that \<open>sudoku\<close> builds has nine rows of nine cells. On such a grid no read of the
  solver is out of range.
\<close>

definition wf_grid :: "grid \<Rightarrow> bool" where
  "wf_grid g = (length g = 9 \<and> list_all (\<lambda>row. length row = 9) g)"

lemma wf_grid_row: "wf_grid g \<Longrightarrow> i < 9 \<Longrightarrow> length (g ! i) = 9"
  by (simp add: wf_grid_def list_all_length)

lemma cell_at_wf: "wf_grid g \<Longrightarrow> i < 9 \<Longrightarrow> j < 9 \<Longrightarrow> cell_at g i j = Some (g ! i ! j)"
  by (simp add: cell_at_def wf_grid_row) (simp add: wf_grid_def)

lemma wf_grid_put_cell: "wf_grid g \<Longrightarrow> wf_grid (put_cell g i j y)"
  by (cases "i < length g")
    (auto simp: wf_grid_def put_cell_def list_all_length nth_list_update list_update_beyond)

lemma modify_cell_wf:
  "wf_grid g \<Longrightarrow> i < 9 \<Longrightarrow> j < 9 \<Longrightarrow> modify_cell g i j f = Some (put_cell g i j (f (g ! i ! j)))"
  by (simp add: modify_cell_def cell_at_wf)

lemma wf_grid_modify_cell: "wf_grid g \<Longrightarrow> modify_cell g i j f = Some g1 \<Longrightarrow> wf_grid g1"
  by (auto simp: modify_cell_def wf_grid_put_cell split: option.splits)

lemma set_all_cells: "set all_cells = {(i, j). i < 9 \<and> j < 9}"
  by (auto simp: all_cells_def)

lemma set_row_cells: "set (row_cells r) = {(i, j). i = r \<and> j < 9}"
  by (auto simp: row_cells_def)

lemma set_col_cells: "set (col_cells c) = {(i, j). i < 9 \<and> j = c}"
  by (auto simp: col_cells_def)

lemma set_block_cells:
  "set (block_cells br bc) = {(i, j). br \<le> i \<and> i < br + 3 \<and> bc \<le> j \<and> j < bc + 3}"
  by (auto simp: block_cells_def)

definition in_grid :: "(nat \<times> nat) list \<Rightarrow> bool" where
  "in_grid ps = list_all (\<lambda>p. fst p < 9 \<and> snd p < 9) ps"

lemma in_grid_simps [simp]:
  "in_grid []" "in_grid (p # ps) = (fst p < 9 \<and> snd p < 9 \<and> in_grid ps)"
  "in_grid (ps @ qs) = (in_grid ps \<and> in_grid qs)"
  by (auto simp: in_grid_def)

lemma in_grid_iff: "in_grid ps = (\<forall>p \<in> set ps. fst p < 9 \<and> snd p < 9)"
  by (simp add: in_grid_def list_all_iff)

lemma in_grid_all_cells: "in_grid all_cells"
  by (auto simp: in_grid_iff set_all_cells)

lemma in_grid_row_cells: "r < 9 \<Longrightarrow> in_grid (row_cells r)"
  by (auto simp: in_grid_iff set_row_cells)

lemma in_grid_col_cells: "c < 9 \<Longrightarrow> in_grid (col_cells c)"
  by (auto simp: in_grid_iff set_col_cells)

lemma in_grid_block_cells: "br \<le> 6 \<Longrightarrow> bc \<le> 6 \<Longrightarrow> in_grid (block_cells br bc)"
  by (auto simp: in_grid_iff set_block_cells)

lemma no_match_wf:
  "wf_grid g \<Longrightarrow> in_grid ps \<Longrightarrow>
     no_match g num ps = Some (\<forall>p \<in> set ps. val_or0 (g ! fst p ! snd p) \<noteq> num)"
  by (induction g num ps rule: no_match.induct) (auto simp: cell_at_wf)

definition peer_cells :: "nat \<Rightarrow> nat \<Rightarrow> (nat \<times> nat) list" where
  "peer_cells r c = row_cells r @ col_cells c @ block_cells ((r div 3) * 3) ((c div 3) * 3)"

lemma in_grid_peer_cells: "r < 9 \<Longrightarrow> c < 9 \<Longrightarrow> in_grid (peer_cells r c)"
  unfolding peer_cells_def
  by (simp add: in_grid_row_cells in_grid_col_cells in_grid_block_cells)

lemma is_valid_wf:
  "wf_grid g \<Longrightarrow> r < 9 \<Longrightarrow> c < 9 \<Longrightarrow>
     is_valid g num (r, c) = Some (\<forall>p \<in> set (peer_cells r c). val_or0 (g ! fst p ! snd p) \<noteq> num)"
  using no_match_wf[OF _ in_grid_peer_cells, of g r c num]
  by (simp add: is_valid_def peer_cells_def)

lemma first_empty_wf:
  "wf_grid g \<Longrightarrow> in_grid ps \<Longrightarrow> \<exists>res. first_empty g ps = Some res"
  by (induction g ps rule: first_empty.induct) (auto simp: cell_at_wf)

lemma find_empty_wf: "wf_grid g \<Longrightarrow> \<exists>res. find_empty g = Some res"
  unfolding find_empty_def by (rule first_empty_wf[OF _ in_grid_all_cells])

lemma find_empty_in_grid: "find_empty g = Some (Some (r, c)) \<Longrightarrow> r < 9 \<and> c < 9"
  unfolding find_empty_def by (auto dest!: first_empty_Some simp: set_all_cells)

lemma solve_total:
  "wf_grid g \<Longrightarrow> \<exists>found g'. solve g = Some (found, g') \<and> wf_grid g'"
  "wf_grid g \<Longrightarrow> r < 9 \<Longrightarrow> c < 9 \<Longrightarrow>
     \<exists>found g'. solve_nums g r c nums = Some (found, g') \<and> wf_grid g'"
proof (induction g and g r c nums rule: solve_solve_nums.induct)
  case (1 g)
  from find_empty_wf[OF "1.prems"] obtain res where res: "find_empty g = Some res" by blast
  show ?case
  proof (cases res)
    case None
    with res "1.prems" show ?thesis by (auto simp: solve.simps)
  next
    case (Some p)
    obtain r c where p: "p = (r, c)" by (cases p)
    from res Some p have fe: "find_empty g = Some (Some (r, c))" by simp
    from find_empty_in_grid[OF fe] "1.IH"[OF fe refl refl "1.prems"] fe
    show ?thesis by (simp add: solve.simps)
  qed
next
  case (2 g r c)
  then show ?case by auto
next
  case (3 g r c num nums)
  let ?ok = "\<forall>p \<in> set (peer_cells r c). val_or0 (g ! fst p ! snd p) \<noteq> num"
  have iv: "is_valid g num (r, c) = Some ?ok" using 3 by (simp add: is_valid_wf)
  show ?case
  proof (cases ?ok)
    case False
    from "3.IH"(3)[OF iv False] "3.prems" iv False show ?thesis by simp
  next
    case True
    let ?g1 = "put_cell g r c ((g ! r ! c)\<lparr>val := Some num\<rparr>)"
    have m1: "modify_cell g r c (\<lambda>x. x\<lparr>val := Some num\<rparr>) = Some ?g1"
      using "3.prems" by (simp add: modify_cell_wf)
    have wf1: "wf_grid ?g1" using "3.prems" by (simp add: wf_grid_put_cell)
    from "3.IH"(1)[OF iv True m1 wf1] obtain found g2 where
      s1: "solve ?g1 = Some (found, g2)" and wf2: "wf_grid g2" by blast
    show ?thesis
    proof (cases found)
      case True
      with iv \<open>?ok\<close> m1 s1 wf2 show ?thesis by auto
    next
      case False
      let ?g3 = "put_cell g2 r c ((g2 ! r ! c)\<lparr>val := None\<rparr>)"
      have m2: "modify_cell g2 r c (\<lambda>x. x\<lparr>val := None\<rparr>) = Some ?g3"
        using wf2 "3.prems" by (simp add: modify_cell_wf)
      have wf3: "wf_grid ?g3" using wf2 by (simp add: wf_grid_put_cell)
      from "3.IH"(2)[OF iv True m1 s1 refl False m2 wf3] "3.prems"
      have "\<exists>found g'. solve_nums ?g3 r c nums = Some (found, g') \<and> wf_grid g'" by simp
      with iv \<open>?ok\<close> m1 s1 False m2 show ?thesis by simp
    qed
  qed
qed

section \<open>Passes that only prune\<close>

text \<open>
  \<open>shrinks g g'\<close>: the grid \<open>g'\<close> has the cells of \<open>g\<close>, the candidates of each cell of
  \<open>g'\<close> are among those the cell had in \<open>g\<close>, and a cell that had a value in \<open>g\<close> has the
  same value in \<open>g'\<close>.
\<close>

definition shrinks :: "grid \<Rightarrow> grid \<Rightarrow> bool" where
  "shrinks g g' =
     (\<forall>i j. case cell_at g i j of
              None \<Rightarrow> cell_at g' i j = None
            | Some c \<Rightarrow>
                (\<exists>c'. cell_at g' i j = Some c' \<and> set (candidates c') \<subseteq> set (candidates c) \<and>
                      (val c \<noteq> None \<longrightarrow> val c' = val c)))"

lemma shrinks_refl [simp]: "shrinks g g"
  by (auto simp: shrinks_def split: option.splits)

lemma shrinks_trans: "shrinks g g1 \<Longrightarrow> shrinks g1 g2 \<Longrightarrow> shrinks g g2"
  unfolding shrinks_def
proof (intro allI)
  fix i j
  assume a: "\<forall>i j. case cell_at g i j of None \<Rightarrow> cell_at g1 i j = None
      | Some c \<Rightarrow> \<exists>c'. cell_at g1 i j = Some c' \<and> set (candidates c') \<subseteq> set (candidates c) \<and>
           (val c \<noteq> None \<longrightarrow> val c' = val c)"
    and b: "\<forall>i j. case cell_at g1 i j of None \<Rightarrow> cell_at g2 i j = None
      | Some c \<Rightarrow> \<exists>c'. cell_at g2 i j = Some c' \<and> set (candidates c') \<subseteq> set (candidates c) \<and>
           (val c \<noteq> None \<longrightarrow> val c' = val c)"
  from a[rule_format, of i j] b[rule_format, of i j]
  show "case cell_at g i j of None \<Rightarrow> cell_at g2 i j = None
      | Some c \<Rightarrow> \<exists>c'. cell_at g2 i j = Some c' \<and> set (candidates c') \<subseteq> set (candidates c) \<and>
           (val c \<noteq> None \<longrightarrow> val c' = val c)"
    by (cases "cell_at g i j") (auto split: option.splits)
qed

lemma shrinks_put_cell:
  assumes "cell_at g i j = Some c" and "set (candidates c') \<subseteq> set (candidates c)"
    and "val c \<noteq> None \<longrightarrow> val c' = val c"
  shows "shrinks g (put_cell g i j c')"
  using assms by (auto simp: shrinks_def cell_at_put_cell split: option.splits)


lemma for_each_rel:
  assumes "for_each body xs s = Some s'"
    and "\<And>x t t'. x \<in> set xs \<Longrightarrow> body x t = Some t' \<Longrightarrow> R t t'"
    and "\<And>t. R t t" and "\<And>t u v. R t u \<Longrightarrow> R u v \<Longrightarrow> R t v"
  shows "R s s'"
  using assms(1,2)
proof (induction xs arbitrary: s)
  case Nil
  then show ?case using assms(3) by simp
next
  case (Cons x xs)
  from Cons.prems(1) obtain t where t: "body x s = Some t" and r: "for_each body xs t = Some s'"
    by (auto split: option.splits)
  have "R s t" by (rule Cons.prems(2)[OF _ t]) simp
  moreover have "R t s'" by (rule Cons.IH[OF r]) (rule Cons.prems(2), simp_all)
  ultimately show ?case by (rule assms(4))
qed

lemma for_each_shrinks:
  assumes "for_each body xs s = Some s'"
    and "\<And>x t t'. x \<in> set xs \<Longrightarrow> body x t = Some t' \<Longrightarrow> shrinks (snd t) (snd t')"
  shows "shrinks (snd s) (snd s')"
proof (rule for_each_rel[where R = "\<lambda>t t'. shrinks (snd t) (snd t')", OF assms(1)])
  show "\<And>x t t'. x \<in> set xs \<Longrightarrow> body x t = Some t' \<Longrightarrow> shrinks (snd t) (snd t')"
    by (rule assms(2))
  show "\<And>t. shrinks (snd t) (snd t)" by (rule shrinks_refl)
  show "\<And>t u v. shrinks (snd t) (snd u) \<Longrightarrow> shrinks (snd u) (snd v) \<Longrightarrow> shrinks (snd t) (snd v)"
    by (rule shrinks_trans)
qed

lemma for_each_shrinks_grid:
  assumes "for_each body xs g = Some g'"
    and "\<And>x t t'. x \<in> set xs \<Longrightarrow> body x t = Some t' \<Longrightarrow> shrinks t t'"
  shows "shrinks g g'"
proof (rule for_each_rel[where R = shrinks, OF assms(1)])
  show "\<And>x t t'. x \<in> set xs \<Longrightarrow> body x t = Some t' \<Longrightarrow> shrinks t t'"
    by (rule assms(2))
  show "\<And>t. shrinks t t" by (rule shrinks_refl)
  show "\<And>t u v. shrinks t u \<Longrightarrow> shrinks u v \<Longrightarrow> shrinks t v"
    by (rule shrinks_trans)
qed

lemma pass_shrinks:
  assumes "for_each body xs (False, g) = Some (changed, g')"
    and "\<And>x t t'. body x t = Some t' \<Longrightarrow> shrinks (snd t) (snd t')"
  shows "shrinks g g'"
  using for_each_shrinks[OF assms(1) assms(2)] by simp

lemma single_candidate_cell_shrinks:
  assumes "single_candidate_cell p s = Some s'"
  shows "shrinks (snd s) (snd s')"
proof -
  obtain changed g where s: "s = (changed, g)" by (cases s)
  from assms s obtain c where c: "cell_at g (fst p) (snd p) = Some c"
    by (auto simp: single_candidate_cell_def split: option.splits)
  show ?thesis
  proof (cases "val c = None \<and> length (candidates c) = 1")
    case True
    with assms s c have "snd s' = put_cell g (fst p) (snd p)
        (c\<lparr>val := Some (hd (candidates c)), given := False\<rparr>)"
      by (auto simp: single_candidate_cell_def)
    moreover have "shrinks g (put_cell g (fst p) (snd p)
        (c\<lparr>val := Some (hd (candidates c)), given := False\<rparr>))"
      using c True by (intro shrinks_put_cell[OF c]) simp_all
    ultimately show ?thesis using s by simp
  next
    case False
    with assms s c have "s' = s" by (auto simp: single_candidate_cell_def)
    then show ?thesis by simp
  qed
qed

text \<open>The list \<open>positions\<close> holds the cells of the unit that pass the test.\<close>

definition has_candidate :: "grid \<Rightarrow> int \<Rightarrow> nat \<times> nat \<Rightarrow> bool" where
  "has_candidate g n p =
     (case cell_at g (fst p) (snd p) of
        None \<Rightarrow> False
      | Some c \<Rightarrow> val c = None \<and> n \<in> set (candidates c))"

lemma collect_positions_filter:
  "collect_positions g n ps = Some qs \<Longrightarrow> qs = filter (has_candidate g n) ps"
  by (induction ps arbitrary: qs) (auto simp: has_candidate_def split: option.splits if_splits)

lemma fill_single_shrinks:
  assumes "fill_single un s = Some s'"
  shows "shrinks (snd s) (snd s')"
proof -
  obtain unit n where un: "un = (unit, n)" by (cases un)
  obtain changed g where s: "s = (changed, g)" by (cases s)
  from assms un s obtain positions where
    cp: "collect_positions g n unit = Some positions"
    by (auto simp: fill_single_def split: option.splits)
  show ?thesis
  proof (cases "length positions = 1")
    case False
    with assms un s cp show ?thesis by (simp add: fill_single_def)
  next
    case True
    then obtain p where p: "positions = [p]" by (cases positions) auto
    with collect_positions_filter[OF cp] have "filter (has_candidate g n) unit = [p]"
      by simp
    then have "p \<in> set (filter (has_candidate g n) unit)" by simp
    then have hc: "has_candidate g n p" by simp
    then obtain c where c: "cell_at g (fst p) (snd p) = Some c" "val c = None"
      by (auto simp: has_candidate_def split: option.splits)
    from assms un s cp p c
    have "snd s' = put_cell g (fst p) (snd p) (c\<lparr>val := Some n, given := False, candidates := []\<rparr>)"
      by (auto simp: fill_single_def modify_cell_def)
    moreover have "shrinks g
        (put_cell g (fst p) (snd p) (c\<lparr>val := Some n, given := False, candidates := []\<rparr>))"
      using c by (intro shrinks_put_cell[OF c(1)]) simp_all
    ultimately show ?thesis using s by simp
  qed
qed

lemma eliminate_cell_shrinks:
  assumes "eliminate_cell keep nums p s = Some s'"
  shows "shrinks (snd s) (snd s')"
proof -
  obtain changed g where s: "s = (changed, g)" by (cases s)
  show ?thesis
  proof (cases "p \<in> set keep")
    case True
    with assms s show ?thesis by (simp add: eliminate_cell_def)
  next
    case False
    with assms s obtain c where c: "cell_at g (fst p) (snd p) = Some c"
      by (auto simp: eliminate_cell_def split: option.splits)
    show ?thesis
    proof (cases "val c = None")
      case True
      with assms s c False have "snd s' = put_cell g (fst p) (snd p)
          (c\<lparr>candidates := filter (\<lambda>n. n \<notin> set nums) (candidates c)\<rparr>)"
        by (auto simp: eliminate_cell_def Let_def)
      moreover have "shrinks g (put_cell g (fst p) (snd p)
          (c\<lparr>candidates := filter (\<lambda>n. n \<notin> set nums) (candidates c)\<rparr>))"
        by (intro shrinks_put_cell[OF c]) simp_all
      ultimately show ?thesis using s by simp
    next
      case F2: False
      with assms s c False have "s' = s" by (auto simp: eliminate_cell_def)
      then show ?thesis by simp
    qed
  qed
qed

lemma naked_pair_unit_shrinks:
  assumes "naked_pair_unit unit s = Some s'"
  shows "shrinks (snd s) (snd s')"
proof (cases "first_pair (the (collect_cands (snd s) (\<lambda>k. k = 2) unit))")
  case None
  with assms show ?thesis by (auto simp: naked_pair_unit_def split: option.splits)
next
  case (Some t)
  obtain p1 p2 cand1 where t: "t = (p1, p2, cand1)" by (cases t)
  from assms Some t have "for_each (eliminate_cell [p1, p2] cand1) unit s = Some s'"
    by (auto simp: naked_pair_unit_def split: option.splits)
  then show ?thesis by (rule for_each_shrinks) (rule eliminate_cell_shrinks)
qed

lemma naked_pair_column_unit_shrinks:
  assumes "naked_pair_column_unit unit s = Some s'"
  shows "shrinks (snd s) (snd s')"
proof (cases "first_pair (the (collect_cands (snd s) (\<lambda>k. k = 2) unit))")
  case None
  with assms show ?thesis by (auto simp: naked_pair_column_unit_def split: option.splits)
next
  case (Some t)
  obtain p1 p2 cand1 where t: "t = (p1, p2, cand1)" by (cases t)
  from assms Some t have "for_each (eliminate_cell [p1, p2] cand1) unit s = Some s'"
    by (auto simp: naked_pair_column_unit_def split: option.splits if_splits)
  then show ?thesis by (rule for_each_shrinks) (rule eliminate_cell_shrinks)
qed

lemma naked_triplet_unit_shrinks:
  assumes "naked_triplet_unit unit s = Some s'"
  shows "shrinks (snd s) (snd s')"
proof (cases "first_triplet (the (collect_cands (snd s) (\<lambda>k. 2 \<le> k \<and> k \<le> 3) unit))")
  case None
  with assms show ?thesis by (auto simp: naked_triplet_unit_def split: option.splits)
next
  case (Some t)
  obtain positions nums where t: "t = (positions, nums)" by (cases t)
  from assms Some t have "for_each (eliminate_cell positions nums) unit s = Some s'"
    by (auto simp: naked_triplet_unit_def split: option.splits)
  then show ?thesis by (rule for_each_shrinks) (rule eliminate_cell_shrinks)
qed

lemma apply_strategy_shrinks:
  assumes "apply_strategy s g = Some (changed, g')"
  shows "shrinks g g'"
proof (cases s)
  case SingleCandidate
  with assms have "single_candidate_apply g = Some (changed, g')" by simp
  then show ?thesis
    unfolding single_candidate_apply_def by (rule pass_shrinks) (rule single_candidate_cell_shrinks)
next
  case SubgridSingle
  with assms have "subgrid_single_apply g = Some (changed, g')" by simp
  then show ?thesis
    unfolding subgrid_single_apply_def by (rule pass_shrinks) (rule fill_single_shrinks)
next
  case RowSingle
  with assms have "row_single_apply g = Some (changed, g')" by simp
  then show ?thesis
    unfolding row_single_apply_def by (rule pass_shrinks) (rule fill_single_shrinks)
next
  case ColumnSingle
  with assms have "column_single_apply g = Some (changed, g')" by simp
  then show ?thesis
    unfolding column_single_apply_def by (rule pass_shrinks) (rule fill_single_shrinks)
next
  case NakedPairColumn
  with assms have "naked_pair_column_apply g = Some (changed, g')" by simp
  then show ?thesis
    unfolding naked_pair_column_apply_def by (rule pass_shrinks) (rule naked_pair_column_unit_shrinks)
next
  case NakedPairRow
  with assms have "naked_pair_row_apply g = Some (changed, g')" by simp
  then show ?thesis
    unfolding naked_pair_row_apply_def by (rule pass_shrinks) (rule naked_pair_unit_shrinks)
next
  case NakedPairSubgrid
  with assms have "naked_pair_subgrid_apply g = Some (changed, g')" by simp
  then show ?thesis
    unfolding naked_pair_subgrid_apply_def by (rule pass_shrinks) (rule naked_pair_unit_shrinks)
next
  case NakedTripletColumn
  with assms have "naked_triplet_column_apply g = Some (changed, g')" by simp
  then show ?thesis
    unfolding naked_triplet_column_apply_def by (rule pass_shrinks) (rule naked_triplet_unit_shrinks)
next
  case NakedTripletRow
  with assms have "naked_triplet_row_apply g = Some (changed, g')" by simp
  then show ?thesis
    unfolding naked_triplet_row_apply_def by (rule pass_shrinks) (rule naked_triplet_unit_shrinks)
next
  case NakedTripletSubgrid
  with assms have "naked_triplet_subgrid_apply g = Some (changed, g')" by simp
  then show ?thesis
    unfolding naked_triplet_subgrid_apply_def by (rule pass_shrinks) (rule naked_triplet_unit_shrinks)
qed

lemma remove_from_peer_shrinks:
  assumes "remove_from_peer v p g = Some g'"
  shows "shrinks g g'"
proof -
  from assms obtain c where c: "cell_at g (fst p) (snd p) = Some c"
    by (auto simp: remove_from_peer_def split: option.splits)
  show ?thesis
  proof (cases "\<exists>x. v = Some x \<and> val c = None \<and> x \<in> set (candidates c)")
    case True
    then obtain x where x: "v = Some x" "val c = None" "x \<in> set (candidates c)" by blast
    with assms c have "g' = put_cell g (fst p) (snd p)
        (c\<lparr>candidates := remove1 x (candidates c)\<rparr>)"
      by (simp add: remove_from_peer_def)
    moreover have "shrinks g (put_cell g (fst p) (snd p)
        (c\<lparr>candidates := remove1 x (candidates c)\<rparr>))"
      by (intro shrinks_put_cell[OF c]) (simp_all add: set_remove1_subset)
    ultimately show ?thesis by simp
  next
    case False
    with assms c have "g' = g"
      by (cases v) (auto simp: remove_from_peer_def split: if_splits)
    then show ?thesis by simp
  qed
qed

lemma remove_filled_shrinks:
  assumes "remove_filled p g = Some g'"
  shows "shrinks g g'"
proof -
  from assms obtain c where c: "cell_at g (fst p) (snd p) = Some c"
    and f: "for_each (remove_from_peer (val c)) (fill_peers (fst p) (snd p))
              (put_cell g (fst p) (snd p) (c\<lparr>candidates := []\<rparr>)) = Some g'"
    by (auto simp: remove_filled_def split: option.splits)
  have "shrinks g (put_cell g (fst p) (snd p) (c\<lparr>candidates := []\<rparr>))"
    by (intro shrinks_put_cell[OF c]) simp_all
  moreover have "shrinks (put_cell g (fst p) (snd p) (c\<lparr>candidates := []\<rparr>)) g'"
    using f by (rule for_each_shrinks_grid) (rule remove_from_peer_shrinks)
  ultimately show ?thesis by (rule shrinks_trans)
qed

lemma remove_filled_candidates_shrinks:
  "remove_filled_candidates g filled = Some g' \<Longrightarrow> shrinks g g'"
  unfolding remove_filled_candidates_def
  by (erule for_each_shrinks_grid) (rule remove_filled_shrinks)

section \<open>No pass raises on a nine by nine grid\<close>

lemma cell_at_cell_of:
  "wf_grid g \<Longrightarrow> fst p < 9 \<Longrightarrow> snd p < 9 \<Longrightarrow> cell_at g (fst p) (snd p) = Some (cell_of g p)"
  by (simp add: cell_at_wf cell_of_def)

lemma cell_of_put_cell:
  assumes "wf_grid g" "i < 9" "j < 9" "fst q < 9" "snd q < 9"
  shows "cell_of (put_cell g i j y) q = (if q = (i, j) then y else cell_of g q)"
proof -
  have "Some (cell_of (put_cell g i j y) q) = cell_at (put_cell g i j y) (fst q) (snd q)"
    using assms by (simp add: cell_at_cell_of wf_grid_put_cell)
  also have "\<dots> = (if q = (i, j) then Some y else Some (cell_of g q))"
    using assms by (cases q) (auto simp: cell_at_put_cell cell_at_wf cell_of_def)
  finally show ?thesis by (simp split: if_splits)
qed

lemma grid_eqI:
  assumes "wf_grid g" "wf_grid g'" and "\<And>p. fst p < 9 \<Longrightarrow> snd p < 9 \<Longrightarrow> cell_of g p = cell_of g' p"
  shows "g = g'"
proof (rule nth_equalityI)
  show "length g = length g'" using assms(1,2) by (simp add: wf_grid_def)
next
  fix i assume "i < length g"
  then have i: "i < 9" using assms(1) by (simp add: wf_grid_def)
  show "g ! i = g' ! i"
  proof (rule nth_equalityI)
    show "length (g ! i) = length (g' ! i)" using assms(1,2) i by (simp add: wf_grid_row)
  next
    fix j assume "j < length (g ! i)"
    then have "j < 9" using assms(1) i by (simp add: wf_grid_row)
    with assms(3)[of "(i, j)"] i show "g ! i ! j = g' ! i ! j" by (simp add: cell_of_def)
  qed
qed

lemma for_each_total:
  assumes "I s" and "\<And>x t. x \<in> set xs \<Longrightarrow> I t \<Longrightarrow> \<exists>t'. body x t = Some t' \<and> I t'"
  shows "\<exists>s'. for_each body xs s = Some s' \<and> I s'"
  using assms
proof (induction xs arbitrary: s)
  case Nil
  then show ?case by simp
next
  case (Cons x xs)
  from Cons.prems(2)[of x s] Cons.prems(1) obtain t where t: "body x t = Some t \<or> True"
    "body x s = Some t" "I t" by auto
  from Cons.IH[OF t(3)] Cons.prems(2) obtain s' where "for_each body xs t = Some s'" "I s'"
    by auto
  with t(2) show ?case by simp
qed

lemma in_grid_mem: "in_grid ps \<Longrightarrow> p \<in> set ps \<Longrightarrow> fst p < 9 \<and> snd p < 9"
  by (simp add: in_grid_iff)

lemma in_grid_block_units: "u \<in> set block_units \<Longrightarrow> in_grid u"
  by (auto simp: block_units_def intro!: in_grid_block_cells)

lemma in_grid_row_units: "u \<in> set row_units \<Longrightarrow> in_grid u"
  by (auto simp: row_units_def intro!: in_grid_row_cells)

lemma in_grid_col_units: "u \<in> set col_units \<Longrightarrow> in_grid u"
  by (auto simp: col_units_def intro!: in_grid_col_cells)

lemma readable_wf: "wf_grid g \<Longrightarrow> in_grid ps \<Longrightarrow> readable g ps"
  by (auto simp: readable_def list_all_iff in_grid_iff cell_at_cell_of)

lemma single_candidate_cell_total:
  assumes "wf_grid (snd s)" "fst p < 9" "snd p < 9"
  shows "\<exists>s'. single_candidate_cell p s = Some s' \<and> wf_grid (snd s')"
  using assms
  by (cases s) (auto simp: single_candidate_cell_def cell_at_cell_of wf_grid_put_cell)

lemma has_candidate_wf:
  "wf_grid g \<Longrightarrow> fst p < 9 \<Longrightarrow> snd p < 9 \<Longrightarrow>
     has_candidate g n p = (val (cell_of g p) = None \<and> n \<in> set (candidates (cell_of g p)))"
  by (simp add: has_candidate_def cell_at_cell_of)

lemma collect_positions_wf:
  "wf_grid g \<Longrightarrow> in_grid ps \<Longrightarrow>
     collect_positions g n ps = Some (filter (has_candidate g n) ps)"
  by (induction ps) (simp_all add: cell_at_cell_of has_candidate_def)

lemma single_filter_mem: "filter P xs = [p] \<Longrightarrow> p \<in> set xs \<and> P p"
proof -
  assume "filter P xs = [p]"
  then have "p \<in> set (filter P xs)" by simp
  then show ?thesis by simp
qed

lemma length_one_hd: "length xs = 1 \<Longrightarrow> xs = [hd xs]"
  by (cases xs) auto

lemma fill_single_total:
  assumes "wf_grid (snd s)" "in_grid (fst un)"
  shows "\<exists>s'. fill_single un s = Some s' \<and> wf_grid (snd s')"
proof -
  obtain unit n where un: "un = (unit, n)" by (cases un)
  obtain changed g where s: "s = (changed, g)" by (cases s)
  from assms un s have wf: "wf_grid g" and ig: "in_grid unit" by simp_all
  let ?ps = "filter (has_candidate g n) unit"
  show ?thesis
  proof (cases "length ?ps = 1")
    case False
    with un s wf ig show ?thesis by (simp add: fill_single_def collect_positions_wf)
  next
    case True
    from length_one_hd[OF True] have "hd ?ps \<in> set unit"
      by (metis single_filter_mem)
    with ig have r: "fst (hd ?ps) < 9" "snd (hd ?ps) < 9" by (auto dest: in_grid_mem)
    with un s wf ig True show ?thesis
      by (simp add: fill_single_def collect_positions_wf modify_cell_wf wf_grid_put_cell)
  qed
qed

lemma collect_cands_wf:
  "wf_grid g \<Longrightarrow> in_grid ps \<Longrightarrow>
     collect_cands g ok ps =
       Some (map (\<lambda>p. (p, candidates (cell_of g p)))
               (filter (\<lambda>p. val (cell_of g p) = None \<and> ok (length (candidates (cell_of g p)))) ps))"
  by (induction ps) (simp_all add: cell_at_cell_of)

lemma eliminate_cell_total:
  assumes "wf_grid (snd s)" "fst p < 9" "snd p < 9"
  shows "\<exists>s'. eliminate_cell keep nums p s = Some s' \<and> wf_grid (snd s')"
  using assms
  by (cases s) (auto simp: eliminate_cell_def cell_at_cell_of wf_grid_put_cell Let_def)

lemma eliminate_loop_total:
  assumes "wf_grid (snd s)" "in_grid unit"
  shows "\<exists>s'. for_each (eliminate_cell keep nums) unit s = Some s' \<and> wf_grid (snd s')"
proof (rule for_each_total[where I = "\<lambda>t. wf_grid (snd t)", OF assms(1)])
  fix x and t :: "bool \<times> grid"
  assume "x \<in> set unit" "wf_grid (snd t)"
  with in_grid_mem[OF assms(2)]
  show "\<exists>t'. eliminate_cell keep nums x t = Some t' \<and> wf_grid (snd t')"
    by (intro eliminate_cell_total) auto
qed

lemma naked_pair_unit_total:
  assumes "wf_grid (snd s)" "in_grid unit"
  shows "\<exists>s'. naked_pair_unit unit s = Some s' \<and> wf_grid (snd s')"
proof (cases "first_pair (the (collect_cands (snd s) (\<lambda>k. k = 2) unit))")
  case None
  with assms show ?thesis
    by (simp add: naked_pair_unit_def collect_cands_wf)
next
  case (Some t)
  obtain p1 p2 cand1 where t: "t = (p1, p2, cand1)" by (cases t)
  from eliminate_loop_total[OF assms] obtain s' where
    s': "for_each (eliminate_cell [p1, p2] cand1) unit s = Some s'" "wf_grid (snd s')" by blast
  with Some t assms show ?thesis
    by (simp add: naked_pair_unit_def collect_cands_wf)
qed

lemma naked_pair_column_unit_total:
  assumes "wf_grid (snd s)" "in_grid unit"
  shows "\<exists>s'. naked_pair_column_unit unit s = Some s' \<and> wf_grid (snd s')"
proof (cases "first_pair (the (collect_cands (snd s) (\<lambda>k. k = 2) unit))")
  case None
  with assms show ?thesis
    by (simp add: naked_pair_column_unit_def collect_cands_wf)
next
  case (Some t)
  obtain p1 p2 cand1 where t: "t = (p1, p2, cand1)" by (cases t)
  from eliminate_loop_total[OF assms] obtain s' where
    s': "for_each (eliminate_cell [p1, p2] cand1) unit s = Some s'" "wf_grid (snd s')" by blast
  have "readable (snd s') (unit @ all_cells)"
    using s'(2) assms(2) by (intro readable_wf) (simp_all add: in_grid_all_cells)
  with Some t s' assms show ?thesis
    by (simp add: naked_pair_column_unit_def collect_cands_wf)
qed

lemma naked_triplet_unit_total:
  assumes "wf_grid (snd s)" "in_grid unit"
  shows "\<exists>s'. naked_triplet_unit unit s = Some s' \<and> wf_grid (snd s')"
proof (cases "first_triplet (the (collect_cands (snd s) (\<lambda>k. 2 \<le> k \<and> k \<le> 3) unit))")
  case None
  with assms show ?thesis
    by (simp add: naked_triplet_unit_def collect_cands_wf)
next
  case (Some t)
  obtain positions nums where t: "t = (positions, nums)" by (cases t)
  from eliminate_loop_total[OF assms] obtain s' where
    s': "for_each (eliminate_cell positions nums) unit s = Some s'" "wf_grid (snd s')" by blast
  with Some t assms show ?thesis
    by (simp add: naked_triplet_unit_def collect_cands_wf)
qed

lemma in_grid_product_units:
  "(\<And>u. u \<in> set us \<Longrightarrow> in_grid u) \<Longrightarrow> un \<in> set (List.product us ns) \<Longrightarrow> in_grid (fst un)"
  by auto

lemma apply_strategy_total:
  assumes "wf_grid g"
  shows "\<exists>changed g'. apply_strategy s g = Some (changed, g') \<and> wf_grid g'"
proof -
  have wf: "wf_grid (snd (False, g))" using assms by simp
  have "\<exists>s'. apply_strategy s g = Some s' \<and> wf_grid (snd s')"
  proof (cases s)
    case SingleCandidate
    show ?thesis unfolding SingleCandidate apply_strategy.simps single_candidate_apply_def
    proof (rule for_each_total[where I = "\<lambda>t. wf_grid (snd t)", OF wf])
      fix x and t :: "bool \<times> grid"
      assume "x \<in> set all_cells" "wf_grid (snd t)"
      then show "\<exists>t'. single_candidate_cell x t = Some t' \<and> wf_grid (snd t')"
        by (intro single_candidate_cell_total) (auto simp: set_all_cells)
    qed
  next
    case SubgridSingle
    show ?thesis unfolding SubgridSingle apply_strategy.simps subgrid_single_apply_def
      by (rule for_each_total[where I = "\<lambda>t. wf_grid (snd t)", OF wf])
        (blast intro: fill_single_total in_grid_product_units in_grid_block_units)
  next
    case RowSingle
    show ?thesis unfolding RowSingle apply_strategy.simps row_single_apply_def
      by (rule for_each_total[where I = "\<lambda>t. wf_grid (snd t)", OF wf])
        (blast intro: fill_single_total in_grid_product_units in_grid_row_units)
  next
    case ColumnSingle
    show ?thesis unfolding ColumnSingle apply_strategy.simps column_single_apply_def
      by (rule for_each_total[where I = "\<lambda>t. wf_grid (snd t)", OF wf])
        (blast intro: fill_single_total in_grid_product_units in_grid_col_units)
  next
    case NakedPairColumn
    show ?thesis unfolding NakedPairColumn apply_strategy.simps naked_pair_column_apply_def
      by (rule for_each_total[where I = "\<lambda>t. wf_grid (snd t)", OF wf])
        (blast intro: naked_pair_column_unit_total in_grid_col_units)
  next
    case NakedPairRow
    show ?thesis unfolding NakedPairRow apply_strategy.simps naked_pair_row_apply_def
      by (rule for_each_total[where I = "\<lambda>t. wf_grid (snd t)", OF wf])
        (blast intro: naked_pair_unit_total in_grid_row_units)
  next
    case NakedPairSubgrid
    show ?thesis unfolding NakedPairSubgrid apply_strategy.simps naked_pair_subgrid_apply_def
      by (rule for_each_total[where I = "\<lambda>t. wf_grid (snd t)", OF wf])
        (blast intro: naked_pair_unit_total in_grid_block_units)
  next
    case NakedTripletColumn
    show ?thesis unfolding NakedTripletColumn apply_strategy.simps naked_triplet_column_apply_def
      by (rule for_each_total[where I = "\<lambda>t. wf_grid (snd t)", OF wf])
        (blast intro: naked_triplet_unit_total in_grid_col_units)
  next
    case NakedTripletRow
    show ?thesis unfolding NakedTripletRow apply_strategy.simps naked_triplet_row_apply_def
      by (rule for_each_total[where I = "\<lambda>t. wf_grid (snd t)", OF wf])
        (blast intro: naked_triplet_unit_total in_grid_row_units)
  next
    case NakedTripletSubgrid
    show ?thesis unfolding NakedTripletSubgrid apply_strategy.simps naked_triplet_subgrid_apply_def
      by (rule for_each_total[where I = "\<lambda>t. wf_grid (snd t)", OF wf])
        (blast intro: naked_triplet_unit_total in_grid_block_units)
  qed
  then show ?thesis by auto
qed

lemma remove_from_peer_total:
  assumes "wf_grid g" "fst p < 9" "snd p < 9"
  shows "\<exists>g'. remove_from_peer v p g = Some g' \<and> wf_grid g'"
  using assms
  by (cases v) (simp_all add: remove_from_peer_def cell_at_cell_of wf_grid_put_cell)

lemma in_grid_fill_peers: "r < 9 \<Longrightarrow> c < 9 \<Longrightarrow> in_grid (fill_peers r c)"
proof -
  assume rc: "r < 9" "c < 9"
  have "in_grid (concat (map (\<lambda>k. [(r, k), (k, c)]) [0..<9]))"
    using rc by (auto simp: in_grid_iff)
  moreover have "in_grid (block_cells ((r div 3) * 3) ((c div 3) * 3))"
    using rc by (simp add: in_grid_block_cells)
  ultimately show ?thesis by (simp add: fill_peers_def)
qed

lemma remove_filled_total:
  assumes "wf_grid g" "fst p < 9" "snd p < 9"
  shows "\<exists>g'. remove_filled p g = Some g' \<and> wf_grid g'"
proof -
  have "\<exists>g'. for_each (remove_from_peer (val (cell_of g p))) (fill_peers (fst p) (snd p))
           (put_cell g (fst p) (snd p) ((cell_of g p)\<lparr>candidates := []\<rparr>)) = Some g' \<and> wf_grid g'"
  proof (rule for_each_total[where I = wf_grid])
    show "wf_grid (put_cell g (fst p) (snd p) ((cell_of g p)\<lparr>candidates := []\<rparr>))"
      using assms(1) by (rule wf_grid_put_cell)
  next
    fix x t
    assume "x \<in> set (fill_peers (fst p) (snd p))" "wf_grid t"
    with in_grid_mem[OF in_grid_fill_peers[OF assms(2,3)]]
    show "\<exists>t'. remove_from_peer (val (cell_of g p)) x t = Some t' \<and> wf_grid t'"
      by (intro remove_from_peer_total) auto
  qed
  then show ?thesis using assms by (simp add: remove_filled_def cell_at_cell_of)
qed

lemma remove_filled_candidates_total:
  assumes "wf_grid g" "in_grid filled"
  shows "\<exists>g'. remove_filled_candidates g filled = Some g' \<and> wf_grid g'"
  unfolding remove_filled_candidates_def
proof (rule for_each_total[where I = wf_grid, OF assms(1)])
  fix x t
  assume "x \<in> set filled" "wf_grid t"
  with in_grid_mem[OF assms(2)]
  show "\<exists>t'. remove_filled x t = Some t' \<and> wf_grid t'"
    by (intro remove_filled_total) auto
qed

lemma valid_numbers_total:
  "wf_grid g \<Longrightarrow> fst p < 9 \<Longrightarrow> snd p < 9 \<Longrightarrow> \<exists>vs. valid_numbers g p ns = Some vs"
proof (induction ns)
  case Nil
  then show ?case by simp
next
  case (Cons n ns)
  then obtain vs where "valid_numbers g p ns = Some vs" by blast
  moreover have "\<exists>ok. is_valid g n p = Some ok"
    using Cons.prems is_valid_wf[of g "fst p" "snd p" n] by simp
  ultimately show ?case by auto
qed

lemma candidates_cell_total:
  assumes "wf_grid g" "fst p < 9" "snd p < 9"
  shows "\<exists>g'. candidates_cell p g = Some g' \<and> wf_grid g'"
  using assms valid_numbers_total[OF assms, of "[1..9]"]
  by (auto simp: candidates_cell_def cell_at_cell_of wf_grid_put_cell)

lemma get_cell_candidates_total:
  assumes "wf_grid g"
  shows "\<exists>g'. get_cell_candidates g = Some g' \<and> wf_grid g'"
  unfolding get_cell_candidates_def
proof (rule for_each_total[where I = wf_grid, OF assms])
  fix x t
  assume "x \<in> set all_cells" "wf_grid t"
  then show "\<exists>t'. candidates_cell x t = Some t' \<and> wf_grid t'"
    by (intro candidates_cell_total) (auto simp: set_all_cells)
qed

section \<open>What the backtracking solver leaves alone\<close>

definition same_flags :: "grid \<Rightarrow> grid \<Rightarrow> bool" where
  "same_flags g g' =
     (map (map given) g' = map (map given) g \<and> map (map candidates) g' = map (map candidates) g)"

lemma same_flags_refl [simp]: "same_flags g g"
  by (simp add: same_flags_def)

lemma same_flags_trans: "same_flags g g1 \<Longrightarrow> same_flags g1 g2 \<Longrightarrow> same_flags g g2"
  by (simp add: same_flags_def)

lemma map_put_cell_same:
  assumes "cell_at g r c = Some x" and "f y = f x"
  shows "map (map f) (put_cell g r c y) = map (map f) g"
proof -
  from assms(1) have r: "r < length g" and c: "c < length (g ! r)" and x: "x = g ! r ! c"
    by (auto simp: cell_at_def split: if_splits)
  have "(map f (g ! r))[c := f y] = map f (g ! r)"
    using c x assms(2) by (simp add: list_update_same_conv)
  then have "map f ((g ! r)[c := y]) = map (map f) g ! r"
    using r by (simp add: map_update)
  then show ?thesis
    unfolding put_cell_def using r by (simp add: map_update list_update_same_conv)
qed

lemma modify_val_same_flags:
  "modify_cell g r c (\<lambda>x. x\<lparr>val := v\<rparr>) = Some g1 \<Longrightarrow> same_flags g g1"
  by (auto simp: modify_cell_def same_flags_def map_put_cell_same split: option.splits)

lemma solve_frame:
  "solve g = Some (found, g') \<Longrightarrow> same_flags g g' \<and> (\<not> found \<longrightarrow> g' = g)"
  "solve_nums g r c nums = Some (found, g'') \<Longrightarrow>
     same_flags g g'' \<and>
     (\<not> found \<longrightarrow> g'' = g \<or> modify_cell g r c (\<lambda>x. x\<lparr>val := None\<rparr>) = Some g'')"
proof (induction g and g r c nums arbitrary: found g' and found g'' rule: solve_solve_nums.induct)
  case (1 g)
  show ?case
  proof (cases "find_empty g = Some None")
    case True
    with "1.prems" show ?thesis by (simp add: solve.simps)
  next
    case False
    with "1.prems" obtain r c where fe: "find_empty g = Some (Some (r, c))"
      and sn: "solve_nums g r c [1..9] = Some (found, g')"
      by (auto simp: solve.simps split: option.splits)
    from fe obtain x where x: "cell_at g r c = Some x" "val x = None"
      unfolding find_empty_def by (blast dest: first_empty_Some)
    from "1.IH"[OF fe refl refl sn] show ?thesis
      using modify_clear_empty[OF x] by blast
  qed
next
  case (2 g r c)
  then show ?case by simp
next
  case (3 g r c num nums)
  from "3.prems" obtain ok where ok: "is_valid g num (r, c) = Some ok"
    by (auto split: option.splits)
  show ?case
  proof (cases ok)
    case False
    with ok "3.prems" have "solve_nums g r c nums = Some (found, g'')" by simp
    from "3.IH"(3)[OF ok False this] show ?thesis .
  next
    case True
    with ok "3.prems" obtain g1 f1 g2 where
      m1: "modify_cell g r c (\<lambda>x. x\<lparr>val := Some num\<rparr>) = Some g1"
      and s1: "solve g1 = Some (f1, g2)"
      by (auto split: option.splits)
    note ih1 = "3.IH"(1)[OF ok True m1 s1]
    note fl1 = modify_val_same_flags[OF m1]
    show ?thesis
    proof (cases f1)
      case True
      with ok \<open>ok\<close> m1 s1 "3.prems" have "found" "g'' = g2" by auto
      with ih1 fl1 show ?thesis by (blast intro: same_flags_trans)
    next
      case False
      with ok \<open>ok\<close> m1 s1 "3.prems" obtain g3 where
        m2: "modify_cell g2 r c (\<lambda>x. x\<lparr>val := None\<rparr>) = Some g3"
        and s2: "solve_nums g3 r c nums = Some (found, g'')"
        by (auto split: option.splits)
      from ih1 False have g2: "g2 = g1" by simp
      from modify_restore[OF m1 m2[unfolded g2]]
      have m3: "modify_cell g r c (\<lambda>x. x\<lparr>val := None\<rparr>) = Some g3" .
      note ih2 = "3.IH"(2)[OF ok True m1 s1 refl False m2 s2]
      have fl: "same_flags g g''"
        using ih2 modify_val_same_flags[OF m3] by (blast intro: same_flags_trans)
      have "\<not> found \<longrightarrow> g'' = g3"
        using ih2 modify_clear_twice[OF m3] by blast
      with m3 fl show ?thesis by auto
    qed
  qed
qed

section \<open>The search of the backtracking solver\<close>

definition place :: "grid \<Rightarrow> nat \<Rightarrow> nat \<Rightarrow> int \<Rightarrow> grid" where
  "place g r c num = put_cell g r c ((cell_of g (r, c))\<lparr>val := Some num\<rparr>)"

definition valid_at :: "grid \<Rightarrow> nat \<Rightarrow> nat \<Rightarrow> int \<Rightarrow> bool" where
  "valid_at g r c num = (\<forall>p \<in> set (peer_cells r c). val_or0 (cell_of g p) \<noteq> num)"

lemma wf_grid_place: "wf_grid g \<Longrightarrow> wf_grid (place g r c num)"
  by (simp add: place_def wf_grid_put_cell)

lemma cell_of_place:
  assumes "wf_grid g" "r < 9" "c < 9" "fst q < 9" "snd q < 9"
  shows "cell_of (place g r c num) q =
           (if q = (r, c) then (cell_of g (r, c))\<lparr>val := Some num\<rparr> else cell_of g q)"
  unfolding place_def using assms by (rule cell_of_put_cell)

lemma is_valid_valid_at:
  "wf_grid g \<Longrightarrow> r < 9 \<Longrightarrow> c < 9 \<Longrightarrow> is_valid g num (r, c) = Some (valid_at g r c num)"
  by (simp add: is_valid_wf valid_at_def cell_of_def)

lemma find_empty_Some_wf:
  assumes "find_empty g = Some (Some (r, c))" "wf_grid g"
  shows "r < 9" "c < 9" "val (cell_of g (r, c)) = None"
proof -
  from find_empty_in_grid[OF assms(1)] show rc: "r < 9" "c < 9" by simp_all
  from assms(1) obtain x where "cell_at g r c = Some x" "val x = None"
    unfolding find_empty_def by (blast dest: first_empty_Some)
  with rc assms(2) show "val (cell_of g (r, c)) = None"
    by (simp add: cell_at_wf cell_of_def)
qed

lemma solve_nums_Cons_wf:
  assumes "wf_grid g" "r < 9" "c < 9" "val (cell_of g (r, c)) = None"
  shows "solve_nums g r c (num # nums) =
     (if valid_at g r c num
      then (case solve (place g r c num) of
              None \<Rightarrow> None
            | Some (found, g2) \<Rightarrow> if found then Some (True, g2) else solve_nums g r c nums)
      else solve_nums g r c nums)"
proof (cases "valid_at g r c num")
  case False
  with assms show ?thesis by (simp add: is_valid_valid_at)
next
  case True
  have m1: "modify_cell g r c (\<lambda>x. x\<lparr>val := Some num\<rparr>) = Some (place g r c num)"
    using assms by (simp add: modify_cell_wf place_def cell_of_def)
  show ?thesis
  proof (cases "solve (place g r c num)")
    case None
    with True m1 assms show ?thesis by (simp add: is_valid_valid_at)
  next
    case (Some res)
    obtain found g2 where res: "res = (found, g2)" by (cases res)
    show ?thesis
    proof (cases found)
      case True
      with \<open>valid_at g r c num\<close> m1 Some res assms show ?thesis
        by (simp add: is_valid_valid_at)
    next
      case False
      with solve_frame(1)[of "place g r c num" found g2] Some res
      have g2: "g2 = place g r c num" by simp
      have ca: "cell_at g r c = Some (cell_of g (r, c))"
        using assms by (simp add: cell_at_wf cell_of_def)
      have "modify_cell (place g r c num) r c (\<lambda>x. x\<lparr>val := None\<rparr>)
              = Some (put_cell g r c ((cell_of g (r, c))\<lparr>val := None\<rparr>))"
        using assms
        by (simp add: modify_cell_def place_def cell_at_put_cell ca)
      moreover have "(cell_of g (r, c))\<lparr>val := None\<rparr> = cell_of g (r, c)"
        using assms(4) by simp
      ultimately have m2: "modify_cell (place g r c num) r c (\<lambda>x. x\<lparr>val := None\<rparr>) = Some g"
        using put_cell_same[OF ca] by simp
      from \<open>valid_at g r c num\<close> m1 Some res False g2 m2 assms show ?thesis
        by (simp add: is_valid_valid_at)
    qed
  qed
qed

lemma empties_place:
  assumes "wf_grid g" "r < 9" "c < 9" "val (cell_of g (r, c)) = None"
  shows "empties (place g r c num) < empties g"
proof -
  have m1: "modify_cell g r c (\<lambda>x. x\<lparr>val := Some num\<rparr>) = Some (place g r c num)"
    using assms by (simp add: modify_cell_wf place_def cell_of_def)
  have "(r, c) \<in> set all_cells" using assms by (simp add: set_all_cells)
  moreover have "is_empty_at g (r, c)"
    using assms by (simp add: is_empty_at_def cell_at_wf cell_of_def)
  ultimately have "empties_excl g (r, c) < empties g"
    unfolding empties_def empties_excl_def by (rule filter_excl_less)
  with empties_fill[OF m1] show ?thesis by simp
qed

lemma solve_total_wf: "wf_grid g \<Longrightarrow> \<exists>found g'. solve g = Some (found, g')"
  using solve_total(1) by blast

lemma first_empty_None:
  "first_empty g ps = Some None \<Longrightarrow> wf_grid g \<Longrightarrow> in_grid ps \<Longrightarrow>
     \<forall>p \<in> set ps. val (cell_of g p) \<noteq> None"
  by (induction g ps rule: first_empty.induct)
    (auto simp: cell_at_wf cell_of_def split: option.splits if_splits)

lemma find_empty_None_filled:
  "find_empty g = Some None \<Longrightarrow> wf_grid g \<Longrightarrow> completely_filled g"
  unfolding find_empty_def completely_filled_def list_all_iff
  by (rule first_empty_None[OF _ _ in_grid_all_cells])

subsection \<open>Resolved cells keep their value\<close>

lemma keeps_values_iff:
  "keeps_values g h =
     (\<forall>p. fst p < 9 \<and> snd p < 9 \<longrightarrow> val (cell_of g p) \<noteq> None \<longrightarrow>
          val (cell_of h p) = val (cell_of g p))"
proof -
  have "\<And>(x::int option) P. (x = None \<or> P) = (x \<noteq> None \<longrightarrow> P)" by blast
  then show ?thesis
    unfolding keeps_values_def list_all_iff set_all_cells Ball_def
    by (simp only: mem_Collect_eq case_prod_beta)
qed

lemma keeps_values_refl [simp]: "keeps_values g g"
  by (simp add: keeps_values_iff)

lemma keeps_values_trans: "keeps_values g g1 \<Longrightarrow> keeps_values g1 g2 \<Longrightarrow> keeps_values g g2"
  by (auto simp: keeps_values_iff)

lemma keeps_values_place:
  assumes "wf_grid g" "r < 9" "c < 9" "val (cell_of g (r, c)) = None"
  shows "keeps_values g (place g r c num)"
  unfolding keeps_values_iff using assms by (auto simp: cell_of_place)

lemma solve_nums_keeps:
  assumes ih: "\<And>g1 found g'. wf_grid g1 \<Longrightarrow> empties g1 < empties g \<Longrightarrow>
                 solve g1 = Some (found, g') \<Longrightarrow> keeps_values g1 g'"
    and "wf_grid g" "r < 9" "c < 9" "val (cell_of g (r, c)) = None"
    and "solve_nums g r c nums = Some (found, g')"
  shows "keeps_values g g'"
  using assms(6)
proof (induction nums)
  case Nil
  then show ?case by simp
next
  case (Cons num nums)
  note eq = solve_nums_Cons_wf[OF assms(2-5), of num nums]
  show ?case
  proof (cases "valid_at g r c num")
    case False
    with Cons eq show ?thesis by simp
  next
    case True
    from solve_total_wf[OF wf_grid_place[OF assms(2)]] obtain f1 g2 where
      s1: "solve (place g r c num) = Some (f1, g2)" by blast
    show ?thesis
    proof (cases f1)
      case True
      with \<open>valid_at g r c num\<close> s1 eq Cons.prems have "g' = g2" by simp
      with ih[OF wf_grid_place[OF assms(2)] empties_place[OF assms(2-5)] s1]
        keeps_values_place[OF assms(2-5)]
      show ?thesis by (blast intro: keeps_values_trans)
    next
      case False
      with \<open>valid_at g r c num\<close> s1 eq Cons.prems
      have "solve_nums g r c nums = Some (found, g')" by simp
      then show ?thesis by (rule Cons.IH)
    qed
  qed
qed

lemma solve_keeps:
  "wf_grid g \<Longrightarrow> solve g = Some (found, g') \<Longrightarrow> keeps_values g g'"
proof (induction g arbitrary: found g' rule: measure_induct_rule[where f = empties])
  case (less g)
  from find_empty_wf[OF less.prems(1)] obtain res where res: "find_empty g = Some res" by blast
  show ?case
  proof (cases res)
    case None
    with res less.prems show ?thesis by (simp add: solve.simps)
  next
    case (Some p)
    obtain r c where p: "p = (r, c)" by (cases p)
    from res Some p have fe: "find_empty g = Some (Some (r, c))" by simp
    note rc = find_empty_Some_wf[OF fe less.prems(1)]
    from fe less.prems(2) have "solve_nums g r c [1..9] = Some (found, g')"
      by (simp add: solve.simps)
    with less.IH less.prems(1) rc show ?thesis
      by (intro solve_nums_keeps[of g r c "[1..9]" found g']) auto
  qed
qed

subsection \<open>Units\<close>

lemma all_units_in_grid: "u \<in> set all_units \<Longrightarrow> in_grid u"
  unfolding all_units_def
  by (auto dest: in_grid_row_units in_grid_col_units in_grid_block_units)

lemma all_units_shape: "list_all (\<lambda>u. distinct u \<and> length u = 9) all_units"
  by code_simp

lemma all_units_distinct: "u \<in> set all_units \<Longrightarrow> distinct u"
  using all_units_shape by (simp add: list_all_iff)

lemma all_units_length: "u \<in> set all_units \<Longrightarrow> length u = 9"
  using all_units_shape by (simp add: list_all_iff)

lemma div3_block: "br \<in> {0, 3, 6} \<Longrightarrow> br \<le> i \<Longrightarrow> i < br + 3 \<Longrightarrow> (i div 3) * 3 = (br::nat)"
  by auto

lemma unit_subset_peers:
  assumes "u \<in> set all_units" "(r, c) \<in> set u"
  shows "set u \<subseteq> set (peer_cells r c)"
proof -
  from assms(1) consider "u \<in> set row_units" | "u \<in> set col_units" | "u \<in> set block_units"
    by (auto simp: all_units_def)
  then show ?thesis
  proof cases
    case 1
    with assms(2) show ?thesis
      by (auto simp: row_units_def peer_cells_def set_row_cells)
  next
    case 2
    with assms(2) show ?thesis
      by (auto simp: col_units_def peer_cells_def set_col_cells)
  next
    case 3
    then obtain br bc where b: "br \<in> {0, 3, 6}" "bc \<in> {0, 3, 6}" "u = block_cells br bc"
      by (auto simp: block_units_def)
    with assms(2) have "br \<le> r" "r < br + 3" "bc \<le> c" "c < bc + 3"
      by (auto simp: set_block_cells)
    with b have "(r div 3) * 3 = br" "(c div 3) * 3 = bc"
      by (auto intro: div3_block)
    with b(3) show ?thesis by (auto simp: peer_cells_def)
  qed
qed

lemma peers_share_unit:
  assumes "r < 9" "c < 9" "q \<in> set (peer_cells r c)"
  shows "\<exists>u \<in> set all_units. (r, c) \<in> set u \<and> q \<in> set u"
proof -
  from assms(3) consider "q \<in> set (row_cells r)" | "q \<in> set (col_cells c)"
    | "q \<in> set (block_cells ((r div 3) * 3) ((c div 3) * 3))"
    by (auto simp: peer_cells_def)
  then show ?thesis
  proof cases
    case 1
    have "row_cells r \<in> set all_units" using assms(1) by (simp add: all_units_def row_units_def)
    moreover have "(r, c) \<in> set (row_cells r)" using assms(2) by (simp add: set_row_cells)
    ultimately show ?thesis using 1 by blast
  next
    case 2
    have "col_cells c \<in> set all_units" using assms(2) by (simp add: all_units_def col_units_def)
    moreover have "(r, c) \<in> set (col_cells c)" using assms(1) by (simp add: set_col_cells)
    ultimately show ?thesis using 2 by blast
  next
    case 3
    have "(r div 3) * 3 \<in> {0, 3, 6}" "(c div 3) * 3 \<in> {0, 3, 6}"
      using assms(1,2) by auto
    then have "block_cells ((r div 3) * 3) ((c div 3) * 3) \<in> set all_units"
      by (auto simp: all_units_def block_units_def)
    moreover have "(r, c) \<in> set (block_cells ((r div 3) * 3) ((c div 3) * 3))"
      by (auto simp: set_block_cells)
    ultimately show ?thesis using 3 by blast
  qed
qed

subsection \<open>A valid placement keeps the grid consistent\<close>

lemma consistent_iff:
  "consistent g =
     (\<forall>u \<in> set all_units. \<forall>p \<in> set u. \<forall>n. val (cell_of g p) = Some n \<longrightarrow>
        1 \<le> n \<and> n \<le> 9 \<and> (\<forall>q \<in> set u. q \<noteq> p \<longrightarrow> val (cell_of g q) \<noteq> Some n))"
proof -
  have A: "\<And>(q::nat \<times> nat) p P. (q = p \<or> P) = (q \<noteq> p \<longrightarrow> P)" by blast
  show ?thesis
    unfolding consistent_def unit_consistent_def list_all_iff A
    by (simp split: option.split)
qed

lemma val_or0_Some: "val x = Some n \<Longrightarrow> val_or0 x = n"
  by (simp add: val_or0_def)

lemma consistent_place:
  assumes wf: "wf_grid g" and co: "consistent g" and rc: "r < 9" "c < 9"
    and em: "val (cell_of g (r, c)) = None" and num: "1 \<le> num" "num \<le> 9"
    and ok: "valid_at g r c num"
  shows "consistent (place g r c num)"
  unfolding consistent_iff
proof (intro ballI allI impI)
  fix u p n
  assume u: "u \<in> set all_units" and p: "p \<in> set u"
    and n: "val (cell_of (place g r c num) p) = Some n"
  note ig = in_grid_mem[OF all_units_in_grid[OF u]]
  have cp: "\<And>q. q \<in> set u \<Longrightarrow> cell_of (place g r c num) q =
      (if q = (r, c) then (cell_of g (r, c))\<lparr>val := Some num\<rparr> else cell_of g q)"
    using ig by (intro cell_of_place[OF wf rc]) auto
  show "1 \<le> n \<and> n \<le> 9 \<and> (\<forall>q \<in> set u. q \<noteq> p \<longrightarrow> val (cell_of (place g r c num) q) \<noteq> Some n)"
  proof (cases "p = (r, c)")
    case True
    with n cp[OF p] have nn: "n = num" by simp
    have "\<forall>q \<in> set u. q \<noteq> p \<longrightarrow> val (cell_of (place g r c num) q) \<noteq> Some n"
    proof (intro ballI impI)
      fix q assume q: "q \<in> set u" "q \<noteq> p"
      from unit_subset_peers[OF u] p True q have "q \<in> set (peer_cells r c)" by auto
      with ok have "val_or0 (cell_of g q) \<noteq> num" by (simp add: valid_at_def)
      then have "val (cell_of g q) \<noteq> Some num" by (auto dest: val_or0_Some)
      with q True nn cp[OF q(1)] show "val (cell_of (place g r c num) q) \<noteq> Some n" by simp
    qed
    with nn num show ?thesis by simp
  next
    case False
    with n cp[OF p] have gn: "val (cell_of g p) = Some n" by simp
    from co[unfolded consistent_iff] u p gn
    have r1: "1 \<le> n \<and> n \<le> 9" and r2: "\<forall>q \<in> set u. q \<noteq> p \<longrightarrow> val (cell_of g q) \<noteq> Some n"
      by blast+
    have "\<forall>q \<in> set u. q \<noteq> p \<longrightarrow> val (cell_of (place g r c num) q) \<noteq> Some n"
    proof (intro ballI impI)
      fix q assume q: "q \<in> set u" "q \<noteq> p"
      show "val (cell_of (place g r c num) q) \<noteq> Some n"
      proof (cases "q = (r, c)")
        case True
        with unit_subset_peers[OF u] q p have "p \<in> set (peer_cells r c)" by auto
        with ok have "val_or0 (cell_of g p) \<noteq> num" by (simp add: valid_at_def)
        with gn have "n \<noteq> num" by (auto dest: val_or0_Some)
        with True cp[OF q(1)] show ?thesis by simp
      next
        case False
        with r2 q cp[OF q(1)] show ?thesis by simp
      qed
    qed
    with r1 show ?thesis by simp
  qed
qed

subsection \<open>A filled consistent grid is solved\<close>

lemma count_list_distinct: "distinct xs \<Longrightarrow> x \<in> set xs \<Longrightarrow> count_list xs x = 1"
  by (induction xs) auto

lemma unit_complete_of_consistent:
  assumes u: "u \<in> set all_units" and co: "consistent g" and fi: "completely_filled g"
  shows "unit_complete g u"
proof -
  let ?f = "\<lambda>p. val (cell_of g p)"
  let ?xs = "map ?f u"
  note ig = in_grid_mem[OF all_units_in_grid[OF u]]
  have filled: "\<And>p. p \<in> set u \<Longrightarrow> ?f p \<noteq> None"
    using fi ig by (auto simp: completely_filled_def list_all_iff set_all_cells)
  have inj: "inj_on ?f (set u)"
  proof (rule inj_onI)
    fix p q assume pq: "p \<in> set u" "q \<in> set u" "?f p = ?f q"
    from filled[OF pq(1)] obtain n where n: "?f p = Some n" by auto
    show "p = q"
    proof (rule ccontr)
      assume "p \<noteq> q"
      with co[unfolded consistent_iff] u pq(1,2) n have "?f q \<noteq> Some n" by blast
      with pq(3) n show False by simp
    qed
  qed
  have dist: "distinct ?xs"
    using all_units_distinct[OF u] inj by (simp add: distinct_map)
  have sub: "set ?xs \<subseteq> Some ` {1..9}"
  proof
    fix x assume "x \<in> set ?xs"
    then obtain p where p: "p \<in> set u" "x = ?f p" by auto
    from filled[OF p(1)] obtain n where n: "?f p = Some n" by auto
    with co[unfolded consistent_iff] u p(1) have "1 \<le> n \<and> n \<le> 9" by blast
    with p n show "x \<in> Some ` {1..9}" by auto
  qed
  have "card (set ?xs) = 9"
    using distinct_card[OF dist] all_units_length[OF u] by simp
  moreover have "card (Some ` {1..9::int}) = 9"
    by (simp add: card_image)
  ultimately have "set ?xs = Some ` {1..9}"
    using sub by (intro card_subset_eq) auto
  then have "\<And>n. n \<in> {1..9} \<Longrightarrow> count_list ?xs (Some n) = 1"
    using dist by (intro count_list_distinct) auto
  then show ?thesis
    by (simp add: unit_complete_def list_all_iff)
qed

lemma solved_of_consistent: "consistent g \<Longrightarrow> completely_filled g \<Longrightarrow> solved_grid g"
  by (simp add: solved_grid_def list_all_iff unit_complete_of_consistent)

subsection \<open>The solver keeps a consistent grid consistent\<close>

lemma solve_nums_consistent:
  assumes ih: "\<And>g1 g'. wf_grid g1 \<Longrightarrow> empties g1 < empties g \<Longrightarrow> consistent g1 \<Longrightarrow>
                 solve g1 = Some (True, g') \<Longrightarrow> consistent g' \<and> completely_filled g'"
    and wf: "wf_grid g" and rc: "r < 9" "c < 9" "val (cell_of g (r, c)) = None"
    and co: "consistent g"
    and "\<forall>n \<in> set nums. 1 \<le> n \<and> n \<le> 9"
    and "solve_nums g r c nums = Some (True, g')"
  shows "consistent g' \<and> completely_filled g'"
  using assms(7,8)
proof (induction nums)
  case Nil
  then show ?case by simp
next
  case (Cons num nums)
  note eq = solve_nums_Cons_wf[OF wf rc, of num nums]
  show ?case
  proof (cases "valid_at g r c num")
    case False
    with Cons eq show ?thesis by simp
  next
    case True
    from solve_total_wf[OF wf_grid_place[OF wf]] obtain f1 g2 where
      s1: "solve (place g r c num) = Some (f1, g2)" by blast
    show ?thesis
    proof (cases f1)
      case T: True
      with True s1 eq Cons.prems have "g' = g2" by simp
      moreover have "consistent (place g r c num)"
        using wf co rc Cons.prems(1) True by (intro consistent_place) auto
      ultimately show ?thesis
        using ih[OF wf_grid_place[OF wf] empties_place[OF wf rc], of num g2] s1 T by simp
    next
      case False
      with True s1 eq Cons.prems
      have "solve_nums g r c nums = Some (True, g')" by simp
      with Cons show ?thesis by simp
    qed
  qed
qed

lemma solve_consistent:
  "wf_grid g \<Longrightarrow> consistent g \<Longrightarrow> solve g = Some (True, g') \<Longrightarrow>
     consistent g' \<and> completely_filled g'"
proof (induction g arbitrary: g' rule: measure_induct_rule[where f = empties])
  case (less g)
  from find_empty_wf[OF less.prems(1)] obtain res where res: "find_empty g = Some res" by blast
  show ?case
  proof (cases res)
    case None
    with res less.prems have "g' = g" by (simp add: solve.simps)
    with res None less.prems find_empty_None_filled show ?thesis by simp
  next
    case (Some p)
    obtain r c where p: "p = (r, c)" by (cases p)
    from res Some p have fe: "find_empty g = Some (Some (r, c))" by simp
    note rc = find_empty_Some_wf[OF fe less.prems(1)]
    from fe less.prems(3) have sn: "solve_nums g r c [1..9] = Some (True, g')"
      by (simp add: solve.simps)
    show ?thesis
    proof (rule solve_nums_consistent[OF _ less.prems(1) rc less.prems(2) _ sn])
      show "\<forall>n \<in> set [1..9]. 1 \<le> n \<and> n \<le> (9::int)" by simp
    next
      fix g1 g'' assume a: "wf_grid g1" "empties g1 < empties g" "consistent g1"
        "solve g1 = Some (True, g'')"
      show "consistent g'' \<and> completely_filled g''"
        by (rule less.IH[OF a(2) a(1) a(3) a(4)])
    qed
  qed
qed

section \<open>A pass that reports no change leaves the grid as it is\<close>

definition quiet :: "bool \<times> grid \<Rightarrow> bool \<times> grid \<Rightarrow> bool" where
  "quiet t t' = (\<not> fst t' \<longrightarrow> \<not> fst t \<and> snd t' = snd t)"

lemma for_each_quiet:
  assumes "for_each body xs s = Some s'"
    and "\<And>x t t'. x \<in> set xs \<Longrightarrow> body x t = Some t' \<Longrightarrow> quiet t t'"
  shows "quiet s s'"
proof (rule for_each_rel[where R = quiet, OF assms(1)])
  show "\<And>x t t'. x \<in> set xs \<Longrightarrow> body x t = Some t' \<Longrightarrow> quiet t t'" by (rule assms(2))
  show "\<And>t. quiet t t" by (simp add: quiet_def)
  show "\<And>t u v. quiet t u \<Longrightarrow> quiet u v \<Longrightarrow> quiet t v" by (auto simp: quiet_def)
qed

lemma single_candidate_cell_quiet: "single_candidate_cell p s = Some s' \<Longrightarrow> quiet s s'"
  by (cases s) (auto simp: single_candidate_cell_def quiet_def split: option.splits if_splits)

lemma fill_single_quiet: "fill_single un s = Some s' \<Longrightarrow> quiet s s'"
  by (cases s; cases un)
    (auto simp: fill_single_def quiet_def split: option.splits if_splits)

lemma eliminate_cell_quiet:
  assumes "eliminate_cell keep nums p s = Some s'"
  shows "quiet s s'"
proof -
  obtain changed g where s: "s = (changed, g)" by (cases s)
  show ?thesis
  proof (cases "p \<in> set keep")
    case True
    with assms s show ?thesis by (simp add: eliminate_cell_def quiet_def)
  next
    case False
    with assms s obtain c where c: "cell_at g (fst p) (snd p) = Some c"
      by (auto simp: eliminate_cell_def split: option.splits)
    show ?thesis
    proof (cases "val c = None")
      case True
      let ?new = "filter (\<lambda>n. n \<notin> set nums) (candidates c)"
      from assms s c False True
      have s': "s' = (changed \<or> ?new \<noteq> candidates c,
                      put_cell g (fst p) (snd p) (c\<lparr>candidates := ?new\<rparr>))"
        by (auto simp: eliminate_cell_def Let_def)
      show ?thesis
      proof (cases "?new = candidates c")
        case True
        then have "c\<lparr>candidates := ?new\<rparr> = c" by simp
        with s' s put_cell_same[OF c] show ?thesis by (simp add: quiet_def)
      next
        case False
        with s' show ?thesis by (simp add: quiet_def)
      qed
    next
      case F2: False
      with assms s c False have "s' = s" by (auto simp: eliminate_cell_def)
      then show ?thesis by (simp add: quiet_def)
    qed
  qed
qed

lemma naked_pair_unit_quiet:
  assumes "naked_pair_unit unit s = Some s'"
  shows "quiet s s'"
proof (cases "first_pair (the (collect_cands (snd s) (\<lambda>k. k = 2) unit))")
  case None
  with assms show ?thesis by (auto simp: naked_pair_unit_def quiet_def split: option.splits)
next
  case (Some t)
  obtain p1 p2 cand1 where t: "t = (p1, p2, cand1)" by (cases t)
  from assms Some t have "for_each (eliminate_cell [p1, p2] cand1) unit s = Some s'"
    by (auto simp: naked_pair_unit_def split: option.splits)
  then show ?thesis by (rule for_each_quiet) (rule eliminate_cell_quiet)
qed

lemma naked_pair_column_unit_quiet:
  assumes "naked_pair_column_unit unit s = Some s'"
  shows "quiet s s'"
proof (cases "first_pair (the (collect_cands (snd s) (\<lambda>k. k = 2) unit))")
  case None
  with assms show ?thesis
    by (auto simp: naked_pair_column_unit_def quiet_def split: option.splits)
next
  case (Some t)
  obtain p1 p2 cand1 where t: "t = (p1, p2, cand1)" by (cases t)
  from assms Some t have "for_each (eliminate_cell [p1, p2] cand1) unit s = Some s'"
    by (auto simp: naked_pair_column_unit_def split: option.splits if_splits)
  then show ?thesis by (rule for_each_quiet) (rule eliminate_cell_quiet)
qed

lemma naked_triplet_unit_quiet:
  assumes "naked_triplet_unit unit s = Some s'"
  shows "quiet s s'"
proof (cases "first_triplet (the (collect_cands (snd s) (\<lambda>k. 2 \<le> k \<and> k \<le> 3) unit))")
  case None
  with assms show ?thesis by (auto simp: naked_triplet_unit_def quiet_def split: option.splits)
next
  case (Some t)
  obtain positions nums where t: "t = (positions, nums)" by (cases t)
  from assms Some t have "for_each (eliminate_cell positions nums) unit s = Some s'"
    by (auto simp: naked_triplet_unit_def split: option.splits)
  then show ?thesis by (rule for_each_quiet) (rule eliminate_cell_quiet)
qed

lemma pass_quiet:
  assumes "for_each body xs (False, g) = Some (False, g')"
    and "\<And>x t t'. body x t = Some t' \<Longrightarrow> quiet t t'"
  shows "g' = g"
  using for_each_quiet[OF assms(1) assms(2)] by (simp add: quiet_def)

lemma apply_strategy_quiet:
  assumes "apply_strategy s g = Some (False, g')"
  shows "g' = g"
proof (cases s)
  case SingleCandidate
  with assms have "single_candidate_apply g = Some (False, g')" by simp
  then show ?thesis
    unfolding single_candidate_apply_def by (rule pass_quiet) (rule single_candidate_cell_quiet)
next
  case SubgridSingle
  with assms have "subgrid_single_apply g = Some (False, g')" by simp
  then show ?thesis
    unfolding subgrid_single_apply_def by (rule pass_quiet) (rule fill_single_quiet)
next
  case RowSingle
  with assms have "row_single_apply g = Some (False, g')" by simp
  then show ?thesis
    unfolding row_single_apply_def by (rule pass_quiet) (rule fill_single_quiet)
next
  case ColumnSingle
  with assms have "column_single_apply g = Some (False, g')" by simp
  then show ?thesis
    unfolding column_single_apply_def by (rule pass_quiet) (rule fill_single_quiet)
next
  case NakedPairColumn
  with assms have "naked_pair_column_apply g = Some (False, g')" by simp
  then show ?thesis
    unfolding naked_pair_column_apply_def by (rule pass_quiet) (rule naked_pair_column_unit_quiet)
next
  case NakedPairRow
  with assms have "naked_pair_row_apply g = Some (False, g')" by simp
  then show ?thesis
    unfolding naked_pair_row_apply_def by (rule pass_quiet) (rule naked_pair_unit_quiet)
next
  case NakedPairSubgrid
  with assms have "naked_pair_subgrid_apply g = Some (False, g')" by simp
  then show ?thesis
    unfolding naked_pair_subgrid_apply_def by (rule pass_quiet) (rule naked_pair_unit_quiet)
next
  case NakedTripletColumn
  with assms have "naked_triplet_column_apply g = Some (False, g')" by simp
  then show ?thesis
    unfolding naked_triplet_column_apply_def by (rule pass_quiet) (rule naked_triplet_unit_quiet)
next
  case NakedTripletRow
  with assms have "naked_triplet_row_apply g = Some (False, g')" by simp
  then show ?thesis
    unfolding naked_triplet_row_apply_def by (rule pass_quiet) (rule naked_triplet_unit_quiet)
next
  case NakedTripletSubgrid
  with assms have "naked_triplet_subgrid_apply g = Some (False, g')" by simp
  then show ?thesis
    unfolding naked_triplet_subgrid_apply_def by (rule pass_quiet) (rule naked_triplet_unit_quiet)
qed

section \<open>The orchestrator on a grid where no strategy makes progress\<close>

text \<open>\<open>no_progress g\<close>: every strategy of the list, applied to \<open>g\<close>, reports no change.\<close>

definition no_progress :: "grid \<Rightarrow> bool" where
  "no_progress g = list_all (\<lambda>s. map_option fst (apply_strategy s g) = Some False) strateties"

lemma filled_positions_wf:
  "wf_grid g \<Longrightarrow> in_grid ps \<Longrightarrow>
     filled_positions g ps = Some (filter (\<lambda>p. val (cell_of g p) \<noteq> None) ps)"
  by (induction ps) (simp_all add: cell_at_cell_of)

lemma no_progress_apply:
  assumes "no_progress g" "idx < length strateties"
  shows "apply_strategy (strateties ! idx) g = Some (False, g)"
proof -
  from assms have "map_option fst (apply_strategy (strateties ! idx) g) = Some False"
    by (simp add: no_progress_def list_all_length)
  then obtain g' where g': "apply_strategy (strateties ! idx) g = Some (False, g')" by auto
  from apply_strategy_quiet[OF this] g' show ?thesis by simp
qed

lemma guided_body_no_progress:
  assumes "wf_grid g" "no_progress g" "find_empty g \<noteq> Some None" "idx < length strateties"
  shows "guided_body \<lparr>cells = g, strategies_idx = idx, prev_changes = pc, last_changes = lc\<rparr> =
     Some (False, \<lparr>cells = g, strategies_idx = (idx + 1) mod length strateties,
                   prev_changes = [], last_changes = []\<rparr>)"
proof -
  from find_empty_wf[OF assms(1)] assms(3) obtain p where fe: "find_empty g = Some (Some p)"
    by auto
  have fp: "filled_positions g all_cells = Some (filter (\<lambda>p. val (cell_of g p) \<noteq> None) all_cells)"
    using assms(1) in_grid_all_cells by (rule filled_positions_wf)
  have rd: "readable g all_cells" using assms(1) in_grid_all_cells by (rule readable_wf)
  have ap: "apply_strategy (strateties ! idx) g = Some (False, g)"
    using assms(2,4) by (rule no_progress_apply)
  have last: "filter (\<lambda>p. p \<notin> set (filter (\<lambda>p. val (cell_of g p) \<noteq> None) all_cells))
      (filter (\<lambda>p. val (cell_of g p) \<noteq> None) all_cells) = []"
    by (auto simp: filter_empty_conv)
  show ?thesis
  proof (cases "length strateties \<le> idx + 1")
    case True
    with assms(4) have "idx + 1 = length strateties" by simp
    then have "(idx + 1) mod length strateties = 0" by (metis mod_self)
    with True assms(4) fp rd ap last fe show ?thesis
      by (simp add: guided_body_def)
  next
    case False
    then have "(idx + 1) mod length strateties = idx + 1" by simp
    with False assms(4) fp rd ap last show ?thesis
      by (simp add: guided_body_def)
  qed
qed

lemma mod_step:
  "((idx + 1) mod m + n + 1) mod m = (idx + Suc n + 1) mod (m::nat)"
proof -
  have "((idx + 1) mod m + (n + 1)) mod m = ((idx + 1) + (n + 1)) mod m"
    by (rule mod_add_left_eq)
  moreover have "(idx + 1) mod m + (n + 1) = (idx + 1) mod m + n + 1" by simp
  moreover have "(idx + 1) + (n + 1) = idx + Suc n + 1" by simp
  ultimately show ?thesis by (simp only:)
qed

lemma guided_loop_no_progress:
  assumes "wf_grid g" "no_progress g" "find_empty g \<noteq> Some None" "idx < length strateties"
  shows "guided_loop (replicate n True)
           \<lparr>cells = g, strategies_idx = idx, prev_changes = pc, last_changes = lc\<rparr> =
         Some (None, \<lparr>cells = g, strategies_idx = (idx + n + 1) mod length strateties,
                       prev_changes = [], last_changes = []\<rparr>)"
  using assms(4)
proof (induction n arbitrary: idx pc lc)
  case 0
  have "guided_loop [] \<lparr>cells = g, strategies_idx = idx, prev_changes = pc, last_changes = lc\<rparr> =
      Some (None, \<lparr>cells = g, strategies_idx = (idx + 1) mod length strateties,
                       prev_changes = [], last_changes = []\<rparr>)"
    by (simp add: guided_body_no_progress[OF assms(1-3) 0])
  then show ?case by simp
next
  case (Suc n)
  let ?st1 = "\<lparr>cells = g, strategies_idx = (idx + 1) mod length strateties,
               prev_changes = [], last_changes = []\<rparr>"
  have lt: "(idx + 1) mod length strateties < length strateties"
    by (rule mod_less_divisor) (simp add: strateties_def)
  have "guided_loop (replicate (Suc n) True)
          \<lparr>cells = g, strategies_idx = idx, prev_changes = pc, last_changes = lc\<rparr> =
        guided_loop (replicate n True) ?st1"
    by (simp add: guided_body_no_progress[OF assms(1-3) Suc.prems])
  also have "\<dots> = Some (None, \<lparr>cells = g,
        strategies_idx = ((idx + 1) mod length strateties + n + 1) mod length strateties,
        prev_changes = [], last_changes = []\<rparr>)"
    by (rule Suc.IH[OF lt])
  finally show ?case by (simp only: mod_step)
qed

lemma guided_loop_no_progress_stop:
  assumes "wf_grid g" "no_progress g" "find_empty g \<noteq> Some None" "idx < length strateties"
  shows "guided_loop (replicate n True @ [False])
           \<lparr>cells = g, strategies_idx = idx, prev_changes = pc, last_changes = lc\<rparr> =
         Some (Some Stopped, \<lparr>cells = g, strategies_idx = (idx + n + 1) mod length strateties,
                       prev_changes = [], last_changes = []\<rparr>)"
  using assms(4)
proof (induction n arbitrary: idx pc lc)
  case 0
  have "guided_loop [False]
          \<lparr>cells = g, strategies_idx = idx, prev_changes = pc, last_changes = lc\<rparr> =
      Some (Some Stopped, \<lparr>cells = g, strategies_idx = (idx + 1) mod length strateties,
                       prev_changes = [], last_changes = []\<rparr>)"
    by (simp add: guided_body_no_progress[OF assms(1-3) 0])
  then show ?case by simp
next
  case (Suc n)
  let ?st1 = "\<lparr>cells = g, strategies_idx = (idx + 1) mod length strateties,
               prev_changes = [], last_changes = []\<rparr>"
  have lt: "(idx + 1) mod length strateties < length strateties"
    by (rule mod_less_divisor) (simp add: strateties_def)
  have "guided_loop (replicate (Suc n) True @ [False])
          \<lparr>cells = g, strategies_idx = idx, prev_changes = pc, last_changes = lc\<rparr> =
        guided_loop (replicate n True @ [False]) ?st1"
    by (simp add: guided_body_no_progress[OF assms(1-3) Suc.prems])
  also have "\<dots> = Some (Some Stopped, \<lparr>cells = g,
        strategies_idx = ((idx + 1) mod length strateties + n + 1) mod length strateties,
        prev_changes = [], last_changes = []\<rparr>)"
    by (rule Suc.IH[OF lt])
  finally show ?case by (simp only: mod_step)
qed

lemma p_two_facts:
  "get_cell_candidates (puzzle_grid p_two) = Some (candidates_grid p_two)"
  "wf_grid (candidates_grid p_two)"
  "find_empty (candidates_grid p_two) = Some (Some (6, 3))"
  by code_simp+

lemma p_two_no_progress: "no_progress (candidates_grid p_two)"
  by code_simp

subsection \<open>A solved grid is consistent\<close>

lemma keeps_valuesD:
  assumes "keeps_values g h" "fst p < 9" "snd p < 9" "val (cell_of g p) = Some n"
  shows "val (cell_of h p) = Some n"
proof -
  from assms(1) have "\<forall>p. fst p < 9 \<and> snd p < 9 \<longrightarrow> val (cell_of g p) \<noteq> None \<longrightarrow>
          val (cell_of h p) = val (cell_of g p)"
    by (simp only: keeps_values_iff)
  then have "fst p < 9 \<and> snd p < 9 \<longrightarrow> val (cell_of g p) \<noteq> None \<longrightarrow>
          val (cell_of h p) = val (cell_of g p)" by (rule spec)
  with assms(2-4) show ?thesis by simp
qed

lemma count_list_two:
  "distinct u \<Longrightarrow> p \<in> set u \<Longrightarrow> q \<in> set u \<Longrightarrow> p \<noteq> q \<Longrightarrow> f p = f q \<Longrightarrow>
     2 \<le> count_list (map f u) (f p)"
proof (induction u)
  case Nil
  then show ?case by simp
next
  case (Cons a u)
  have pos: "\<And>x. x \<in> set u \<Longrightarrow> 1 \<le> count_list (map f u) (f x)"
  proof -
    fix x assume "x \<in> set u"
    then have "f x \<in> set (map f u)" by simp
    then have "count_list (map f u) (f x) \<noteq> 0" by (simp add: count_list_0_iff)
    then show "1 \<le> count_list (map f u) (f x)" by simp
  qed
  show ?case
  proof (cases "a = p")
    case True
    with Cons.prems have "q \<in> set u" by auto
    from pos[OF this] True Cons.prems(5) show ?thesis by simp
  next
    case False
    show ?thesis
    proof (cases "a = q")
      case True
      with Cons.prems False have "p \<in> set u" by auto
      from pos[OF this] True Cons.prems(5) show ?thesis by simp
    next
      case F2: False
      with False Cons have "2 \<le> count_list (map f u) (f p)" by auto
      then show ?thesis by simp
    qed
  qed
qed

lemma complete_values_range:
  assumes len: "length xs = 9"
    and cnt: "\<forall>n \<in> {1..9::int}. count_list xs (Some n) = 1"
  shows "set xs \<subseteq> Some ` {1..9}"
proof
  fix x assume x: "x \<in> set xs"
  let ?A = "Some ` {1..9::int}"
  let ?B = "set xs - ?A"
  have "sum (count_list xs) (?A \<union> ?B) = length xs"
    by (intro sum_count_set) auto
  moreover have "sum (count_list xs) (?A \<union> ?B) = sum (count_list xs) ?A + sum (count_list xs) ?B"
    by (intro sum.union_disjoint) auto
  moreover have "sum (count_list xs) ?A = sum (\<lambda>x. 1) ?A"
    using cnt by (intro sum.cong) auto
  moreover have "sum (\<lambda>x. 1::nat) ?A = 9"
    by (simp add: card_image)
  ultimately have "sum (count_list xs) ?B = 0" using len by simp
  then have z: "\<forall>y \<in> ?B. count_list xs y = 0" by simp
  show "x \<in> ?A"
  proof (rule ccontr)
    assume "x \<notin> ?A"
    with x z have "count_list xs x = 0" by blast
    with x show False by (simp add: count_list_0_iff)
  qed
qed

lemma solved_consistent:
  assumes "solved_grid h"
  shows "consistent h"
  unfolding consistent_iff
proof (intro ballI allI impI)
  fix u p n
  assume u: "u \<in> set all_units" and p: "p \<in> set u" and n: "val (cell_of h p) = Some n"
  let ?f = "\<lambda>p. val (cell_of h p)"
  from assms u have uc: "unit_complete h u" by (simp add: solved_grid_def list_all_iff)
  then have cnt: "\<forall>n \<in> {1..9::int}. count_list (map ?f u) (Some n) = 1"
    by (simp add: unit_complete_def list_all_iff)
  have "set (map ?f u) \<subseteq> Some ` {1..9}"
    using all_units_length[OF u] cnt by (intro complete_values_range) simp_all
  with p n have rng: "n \<in> {1..9}" by force
  have "\<forall>q \<in> set u. q \<noteq> p \<longrightarrow> ?f q \<noteq> Some n"
  proof (intro ballI impI notI)
    fix q assume q: "q \<in> set u" "q \<noteq> p" "?f q = Some n"
    from count_list_two[OF all_units_distinct[OF u] p q(1), of ?f] q n
    have "2 \<le> count_list (map ?f u) (Some n)" by simp
    with cnt rng show False by simp
  qed
  with rng show "1 \<le> n \<and> n \<le> 9 \<and> (\<forall>q \<in> set u. q \<noteq> p \<longrightarrow> ?f q \<noteq> Some n)" by simp
qed

lemma consistent_below:
  assumes "consistent h" "keeps_values g h"
  shows "consistent g"
  unfolding consistent_iff
proof (intro ballI allI impI)
  fix u p n
  assume u: "u \<in> set all_units" and p: "p \<in> set u" and n: "val (cell_of g p) = Some n"
  note ig = in_grid_mem[OF all_units_in_grid[OF u]]
  from ig[OF p] have "fst p < 9" "snd p < 9" by simp_all
  from keeps_valuesD[OF assms(2) this n] have hn: "val (cell_of h p) = Some n" .
  from assms(1)[unfolded consistent_iff] u p hn
  have r1: "1 \<le> n \<and> n \<le> 9" and r2: "\<forall>q \<in> set u. q \<noteq> p \<longrightarrow> val (cell_of h q) \<noteq> Some n"
    by blast+
  have "\<forall>q \<in> set u. q \<noteq> p \<longrightarrow> val (cell_of g q) \<noteq> Some n"
  proof (intro ballI impI notI)
    fix q assume q: "q \<in> set u" "q \<noteq> p" "val (cell_of g q) = Some n"
    from ig[OF q(1)] have "fst q < 9" "snd q < 9" by simp_all
    from keeps_valuesD[OF assms(2) this q(3)] have "val (cell_of h q) = Some n" .
    with r2 q show False by simp
  qed
  with r1 show "1 \<le> n \<and> n \<le> 9 \<and> (\<forall>q \<in> set u. q \<noteq> p \<longrightarrow> val (cell_of g q) \<noteq> Some n)" by simp
qed

subsection \<open>The solution found is the first in lexicographic order\<close>

lemma lex_le_refl [simp]: "lex_le xs xs"
  by (induction xs) auto

lemma lex_le_map:
  assumes "\<forall>q \<in> set pre. f q = f' q" "f p < f' p"
  shows "lex_le (map f (pre @ p # post)) (map f' (pre @ p # post))"
  using assms by (induction pre) auto

lemma first_empty_split:
  "first_empty g ps = Some (Some p) \<Longrightarrow> wf_grid g \<Longrightarrow> in_grid ps \<Longrightarrow>
     \<exists>pre post. ps = pre @ p # post \<and> val (cell_of g p) = None \<and>
        (\<forall>q \<in> set pre. val (cell_of g q) \<noteq> None)"
proof (induction g ps rule: first_empty.induct)
  case (1 g)
  then show ?case by simp
next
  case (2 g i j ps)
  from "2.prems" have ij: "i < 9" "j < 9" by simp_all
  with "2.prems"(2) have ca: "cell_at g i j = Some (cell_of g (i, j))"
    by (simp add: cell_at_wf cell_of_def)
  show ?case
  proof (cases "val (cell_of g (i, j)) = None")
    case True
    with "2.prems"(1) ca have "p = (i, j)" by simp
    with True have "(i, j) # ps = [] @ p # ps \<and> val (cell_of g p) = None \<and>
        (\<forall>q \<in> set []. val (cell_of g q) \<noteq> None)" by simp
    then show ?thesis by blast
  next
    case False
    with "2.prems"(1) ca have "first_empty g ps = Some (Some p)" by simp
    from "2.IH"[OF ca False this "2.prems"(2)] "2.prems"(3)
    obtain pre post where "ps = pre @ p # post" "val (cell_of g p) = None"
      "\<forall>q \<in> set pre. val (cell_of g q) \<noteq> None" by auto
    with False have "(i, j) # ps = ((i, j) # pre) @ p # post \<and> val (cell_of g p) = None \<and>
        (\<forall>q \<in> set ((i, j) # pre). val (cell_of g q) \<noteq> None)" by simp
    then show ?thesis by blast
  qed
qed

lemma find_empty_split:
  assumes "find_empty g = Some (Some p)" "wf_grid g"
  shows "\<exists>pre post. all_cells = pre @ p # post \<and> val (cell_of g p) = None \<and>
        (\<forall>q \<in> set pre. val (cell_of g q) \<noteq> None)"
  using first_empty_split[OF assms(1)[unfolded find_empty_def] assms(2) in_grid_all_cells] .

lemma valid_at_solution:
  assumes wf: "wf_grid g" and rc: "r < 9" "c < 9" "val (cell_of g (r, c)) = None"
    and kh: "keeps_values g h" and hc: "consistent h"
    and hv: "val (cell_of h (r, c)) = Some v" and v: "1 \<le> v"
  shows "valid_at g r c v"
  unfolding valid_at_def
proof (intro ballI notI)
  fix p assume p: "p \<in> set (peer_cells r c)" and e: "val_or0 (cell_of g p) = v"
  from in_grid_mem[OF in_grid_peer_cells[OF rc(1,2)] p] have ig: "fst p < 9" "snd p < 9"
    by simp_all
  from e v have gp: "val (cell_of g p) = Some v"
    by (cases "val (cell_of g p)") (auto simp: val_or0_def)
  with rc(3) have ne: "p \<noteq> (r, c)" by auto
  from keeps_valuesD[OF kh ig gp] have hp: "val (cell_of h p) = Some v" .
  from peers_share_unit[OF rc(1,2) p] obtain u where
    u: "u \<in> set all_units" "(r, c) \<in> set u" "p \<in> set u" by blast
  from hc[unfolded consistent_iff] u(1,2) hv have
    "\<forall>q \<in> set u. q \<noteq> (r, c) \<longrightarrow> val (cell_of h q) \<noteq> Some v" by blast
  with u(3) ne hp show False by blast
qed

lemma keeps_values_place_solution:
  assumes "wf_grid g" "r < 9" "c < 9" "keeps_values g h" "val (cell_of h (r, c)) = Some v"
  shows "keeps_values (place g r c v) h"
  unfolding keeps_values_iff
proof (intro allI impI)
  fix p assume ig: "fst p < 9 \<and> snd p < 9" and ne: "val (cell_of (place g r c v) p) \<noteq> None"
  show "val (cell_of h p) = val (cell_of (place g r c v) p)"
  proof (cases "p = (r, c)")
    case True
    with assms ig show ?thesis by (simp add: cell_of_place)
  next
    case False
    with assms(1-3) ig have e: "cell_of (place g r c v) p = cell_of g p"
      by (simp add: cell_of_place)
    with ne obtain n where n: "val (cell_of g p) = Some n" by auto
    from ig have "fst p < 9" "snd p < 9" by simp_all
    from keeps_valuesD[OF assms(4) this n] n e show ?thesis by simp
  qed
qed

lemma solve_nums_first:
  assumes ih: "\<And>g1. wf_grid g1 \<Longrightarrow> empties g1 < empties g \<Longrightarrow> keeps_values g1 h \<Longrightarrow>
                 \<exists>g'. solve g1 = Some (True, g') \<and> lex_le (grid_values g') (grid_values h)"
    and wf: "wf_grid g" and fe: "find_empty g = Some (Some (r, c))"
    and kh: "keeps_values g h" and hc: "consistent h"
    and hv: "val (cell_of h (r, c)) = Some v"
    and "sorted_wrt (<) nums" "\<forall>n \<in> set nums. 1 \<le> n" "v \<in> set nums"
  shows "\<exists>g'. solve_nums g r c nums = Some (True, g') \<and> lex_le (grid_values g') (grid_values h)"
  using assms(7-9)
proof (induction nums)
  case Nil
  then show ?case by simp
next
  case (Cons num nums)
  note rc = find_empty_Some_wf[OF fe wf]
  note eq = solve_nums_Cons_wf[OF wf rc, of num nums]
  from solve_total_wf[OF wf_grid_place[OF wf]] obtain f1 g2 where
    s1: "solve (place g r c num) = Some (f1, g2)" by blast
  show ?case
  proof (cases "v = num")
    case True
    have va: "valid_at g r c num"
      using valid_at_solution[OF wf rc kh hc hv] Cons.prems(2) True by simp
    from ih[OF wf_grid_place[OF wf] empties_place[OF wf rc], of num]
      keeps_values_place_solution[OF wf rc(1,2) kh hv] True
    obtain g' where "solve (place g r c num) = Some (True, g')"
      "lex_le (grid_values g') (grid_values h)" by auto
    with va eq show ?thesis by simp
  next
    case False
    with Cons.prems have vin: "v \<in> set nums" and lt: "num < v" by auto
    from Cons.prems have rest: "sorted_wrt (<) nums" "\<forall>n \<in> set nums. 1 \<le> n" by auto
    note IH = Cons.IH[OF rest vin]
    show ?thesis
    proof (cases "valid_at g r c num \<and> f1")
      case F2: False
      with eq s1 have "solve_nums g r c (num # nums) = solve_nums g r c nums" by auto
      with IH show ?thesis by simp
    next
      case True
      with eq s1 have res: "solve_nums g r c (num # nums) = Some (True, g2)" by simp
      from find_empty_split[OF fe wf] obtain pre post where
        sp: "all_cells = pre @ (r, c) # post" "\<forall>q \<in> set pre. val (cell_of g q) \<noteq> None"
        by blast
      have k12: "keeps_values (place g r c num) g2"
        using solve_keeps[OF wf_grid_place[OF wf] s1] .
      have k02: "keeps_values g g2"
        using keeps_values_place[OF wf rc] k12 by (rule keeps_values_trans)
      have pre_in: "\<And>q. q \<in> set pre \<Longrightarrow> fst q < 9 \<and> snd q < 9"
      proof -
        fix q assume "q \<in> set pre"
        then have "q \<in> set (pre @ (r, c) # post)" by simp
        then have "q \<in> set all_cells" by (simp only: sp(1))
        then show "fst q < 9 \<and> snd q < 9" by (auto simp: set_all_cells)
      qed
      have eqpre: "\<forall>q \<in> set pre. val_or0 (cell_of g2 q) = val_or0 (cell_of h q)"
      proof
        fix q assume q: "q \<in> set pre"
        with sp(2) obtain n where n: "val (cell_of g q) = Some n" by auto
        from pre_in[OF q] have iq: "fst q < 9" "snd q < 9" by simp_all
        from keeps_valuesD[OF k02 iq n] keeps_valuesD[OF kh iq n]
        have "val (cell_of g2 q) = val (cell_of h q)" by simp
        then show "val_or0 (cell_of g2 q) = val_or0 (cell_of h q)" by (simp add: val_or0_def)
      qed
      have "val (cell_of (place g r c num) (r, c)) = Some num"
        using wf rc by (simp add: cell_of_place)
      with keeps_valuesD[OF k12, of "(r, c)" num] rc
      have "val (cell_of g2 (r, c)) = Some num" by simp
      with hv lt have "val_or0 (cell_of g2 (r, c)) < val_or0 (cell_of h (r, c))"
        by (simp add: val_or0_def)
      with eqpre have "lex_le (grid_values g2) (grid_values h)"
        unfolding grid_values_def sp(1) by (intro lex_le_map) auto
      with res show ?thesis by simp
    qed
  qed
qed

lemma solve_first:
  "wf_grid g \<Longrightarrow> consistent h \<Longrightarrow> completely_filled h \<Longrightarrow> keeps_values g h \<Longrightarrow>
     \<exists>g'. solve g = Some (True, g') \<and> lex_le (grid_values g') (grid_values h)"
proof (induction g rule: measure_induct_rule[where f = empties])
  case (less g)
  from find_empty_wf[OF less.prems(1)] obtain res where res: "find_empty g = Some res" by blast
  show ?case
  proof (cases res)
    case None
    with res have s: "solve g = Some (True, g)" by (simp add: solve.simps)
    from res None less.prems(1) have "completely_filled g" by (simp add: find_empty_None_filled)
    have "\<forall>p \<in> set all_cells. val (cell_of g p) = val (cell_of h p)"
    proof
      fix p assume p: "p \<in> set all_cells"
      with \<open>completely_filled g\<close> obtain n where n: "val (cell_of g p) = Some n"
        by (auto simp: completely_filled_def list_all_iff)
      from p have "fst p < 9" "snd p < 9" by (auto simp: set_all_cells)
      from keeps_valuesD[OF less.prems(4) this n] n
      show "val (cell_of g p) = val (cell_of h p)" by simp
    qed
    then have "grid_values g = grid_values h"
      by (simp add: grid_values_def val_or0_def)
    with s show ?thesis by simp
  next
    case (Some p)
    obtain r c where p: "p = (r, c)" by (cases p)
    from res Some p have fe: "find_empty g = Some (Some (r, c))" by simp
    note rc = find_empty_Some_wf[OF fe less.prems(1)]
    from less.prems(3) rc(1,2) obtain v where hv: "val (cell_of h (r, c)) = Some v"
      by (auto simp: completely_filled_def list_all_iff set_all_cells)
    have "row_cells r \<in> set all_units" using rc(1) by (simp add: all_units_def row_units_def)
    moreover have "(r, c) \<in> set (row_cells r)" using rc(2) by (simp add: set_row_cells)
    ultimately have "1 \<le> v \<and> v \<le> 9"
      using less.prems(2)[unfolded consistent_iff] hv by blast
    then have vin: "v \<in> set [1..9]" by simp
    have so: "sorted_wrt (<) [1..9::int]" by code_simp
    have ge: "\<forall>n \<in> set [1..9::int]. 1 \<le> n" by simp
    have "\<exists>g'. solve_nums g r c [1..9] = Some (True, g') \<and>
            lex_le (grid_values g') (grid_values h)"
    proof (rule solve_nums_first[OF _ less.prems(1) fe less.prems(4) less.prems(2) hv so ge vin])
      fix g1 assume a: "wf_grid g1" "empties g1 < empties g" "keeps_values g1 h"
      show "\<exists>g'. solve g1 = Some (True, g') \<and> lex_le (grid_values g') (grid_values h)"
        by (rule less.IH[OF a(2) a(1) less.prems(2,3) a(3)])
    qed
    with fe show ?thesis by (simp add: solve.simps)
  qed
qed

section \<open>The hidden-single strategies against the pass of the specification\<close>

lemma same_visibleD:
  assumes "same_visible g h" "fst p < 9" "snd p < 9"
  shows "val (cell_of g p) = val (cell_of h p)" "candidates (cell_of g p) = candidates (cell_of h p)"
proof -
  from assms(2,3) have "p \<in> set all_cells" by (cases p) (simp add: set_all_cells)
  with assms(1) show "val (cell_of g p) = val (cell_of h p)"
    "candidates (cell_of g p) = candidates (cell_of h p)"
    by (simp_all add: same_visible_def list_all_iff)
qed

lemma same_visibleI:
  assumes "\<And>p. fst p < 9 \<Longrightarrow> snd p < 9 \<Longrightarrow>
     val (cell_of g p) = val (cell_of h p) \<and> candidates (cell_of g p) = candidates (cell_of h p)"
  shows "same_visible g h"
  unfolding same_visible_def list_all_iff using assms by (auto simp: set_all_cells)

lemma case_single:
  "(case xs of [] \<Rightarrow> b | [p] \<Rightarrow> a p | p # q # rest \<Rightarrow> b) =
     (if length xs = 1 then a (hd xs) else b)"
  by (cases xs; cases "tl xs") auto

lemma filter_unresolved_eq:
  assumes "wf_grid g" "same_visible g h" "in_grid unit"
  shows "filter (has_candidate g n) unit = filter (unresolved_with h n) unit"
proof (rule filter_cong[OF refl])
  fix p assume "p \<in> set unit"
  with assms(3) have ig: "fst p < 9" "snd p < 9" by (auto dest: in_grid_mem)
  from same_visibleD[OF assms(2) ig] has_candidate_wf[OF assms(1) ig]
  show "has_candidate g n p = unresolved_with h n p" by (simp add: unresolved_with_def)
qed

lemma fill_single_step:
  assumes wfg: "wf_grid g" and wfh: "wf_grid h" and sv: "same_visible g h"
    and ig: "in_grid unit"
  shows "\<exists>changed' g'. fill_single (unit, n) (changed, g) = Some (changed', g') \<and>
           wf_grid g' \<and> wf_grid (snd (hidden_single_step (unit, n) (k, h))) \<and>
           same_visible g' (snd (hidden_single_step (unit, n) (k, h))) \<and>
           k \<le> fst (hidden_single_step (unit, n) (k, h)) \<and>
           changed' = (changed \<or> k < fst (hidden_single_step (unit, n) (k, h)))"
proof -
  let ?ps = "filter (unresolved_with h n) unit"
  have cp: "collect_positions g n unit = Some ?ps"
    using collect_positions_wf[OF wfg ig] filter_unresolved_eq[OF wfg sv ig] by simp
  have hs: "hidden_single_step (unit, n) (k, h) =
      (if length ?ps = 1
       then (k + 1, put_cell h (fst (hd ?ps)) (snd (hd ?ps))
                      ((cell_of h (hd ?ps))\<lparr>val := Some n, candidates := []\<rparr>))
       else (k, h))"
    by (simp add: hidden_single_step_def case_single)
  show ?thesis
  proof (cases "length ?ps = 1")
    case False
    with cp hs wfg wfh sv show ?thesis by (simp add: fill_single_def)
  next
    case True
    let ?p = "hd ?ps"
    from length_one_hd[OF True] have "?p \<in> set unit" by (metis single_filter_mem)
    with ig have pg: "fst ?p < 9" "snd ?p < 9" by (auto dest: in_grid_mem)
    let ?g' = "put_cell g (fst ?p) (snd ?p)
                 ((cell_of g ?p)\<lparr>val := Some n, given := False, candidates := []\<rparr>)"
    let ?h' = "put_cell h (fst ?p) (snd ?p) ((cell_of h ?p)\<lparr>val := Some n, candidates := []\<rparr>)"
    have fs: "fill_single (unit, n) (changed, g) = Some (True, ?g')"
      using cp True wfg pg by (simp add: fill_single_def modify_cell_wf cell_of_def)
    have "same_visible ?g' ?h'"
    proof (rule same_visibleI)
      fix q :: "nat \<times> nat" assume q: "fst q < 9" "snd q < 9"
      from same_visibleD[OF sv q] cell_of_put_cell[OF wfg pg q] cell_of_put_cell[OF wfh pg q]
      show "val (cell_of ?g' q) = val (cell_of ?h' q) \<and>
            candidates (cell_of ?g' q) = candidates (cell_of ?h' q)"
        by (cases "q = (fst ?p, snd ?p)") simp_all
    qed
    with fs hs True wfg wfh show ?thesis by (auto simp: wf_grid_put_cell)
  qed
qed

lemma hidden_single_refines:
  assumes "wf_grid g" "wf_grid h" "same_visible g h" "\<forall>un \<in> set steps. in_grid (fst un)"
  shows "\<exists>changed' g'. for_each fill_single steps (changed, g) = Some (changed', g') \<and>
           same_visible g' (snd (foldl (\<lambda>s un. hidden_single_step un s) (k, h) steps)) \<and>
           changed' = (changed \<or> k < fst (foldl (\<lambda>s un. hidden_single_step un s) (k, h) steps))"
  using assms
proof (induction steps arbitrary: g h changed k)
  case Nil
  then show ?case by simp
next
  case (Cons un steps)
  obtain unit n where un: "un = (unit, n)" by (cases un)
  obtain k1 h1 where st: "hidden_single_step (unit, n) (k, h) = (k1, h1)"
    by (cases "hidden_single_step (unit, n) (k, h)")
  from Cons.prems(4) un have ig: "in_grid unit" by simp
  from fill_single_step[OF Cons.prems(1-3) ig, of n changed k] st
  obtain c1 g1 where f1: "fill_single (unit, n) (changed, g) = Some (c1, g1)"
    and w: "wf_grid g1" "wf_grid h1" "same_visible g1 h1" and kk: "k \<le> k1"
    and c1: "c1 = (changed \<or> k < k1)"
    by auto
  from Cons.prems(4) have rest: "\<forall>un \<in> set steps. in_grid (fst un)" by simp
  from Cons.IH[OF w rest, of c1 k1]
  obtain c2 g2 where f2: "for_each fill_single steps (c1, g1) = Some (c2, g2)"
    and sv2: "same_visible g2 (snd (foldl (\<lambda>s un. hidden_single_step un s) (k1, h1) steps))"
    and c2: "c2 = (c1 \<or> k1 < fst (foldl (\<lambda>s un. hidden_single_step un s) (k1, h1) steps))"
    by blast
  have mono: "k1 \<le> fst (foldl (\<lambda>s un. hidden_single_step un s) (k1, h1) steps)"
  proof -
    have "\<And>s. fst s \<le> fst (foldl (\<lambda>s un. hidden_single_step un s) s steps)"
    proof (induction steps)
      case Nil
      show ?case by simp
    next
      case (Cons a steps)
      have "fst s \<le> fst (hidden_single_step a s)"
        by (cases a; cases s) (simp add: hidden_single_step_def case_single)
      with Cons[of "hidden_single_step a s"] show ?case by simp
    qed
    from this[of "(k1, h1)"] show ?thesis by simp
  qed
  from f1 f2 un st sv2 c1 c2 kk mono show ?case by auto
qed

lemma product_units_in_grid:
  "(\<And>u. u \<in> set us \<Longrightarrow> in_grid u) \<Longrightarrow> \<forall>un \<in> set (List.product us ns). in_grid (fst un)"
  by auto

lemma same_visible_refl: "same_visible g g"
  by (simp add: same_visible_def list_all_iff)

section \<open>Propagating a fill twice\<close>

text \<open>
  \<open>pruned g g'\<close>: \<open>g'\<close> is a nine by nine grid with the values of \<open>g\<close>, candidate lists
  that hold only candidates of \<open>g\<close>, and no number twice in a list where \<open>g\<close> had none.
\<close>

definition pruned :: "grid \<Rightarrow> grid \<Rightarrow> bool" where
  "pruned g g' =
     (wf_grid g' \<and>
      (\<forall>q. fst q < 9 \<and> snd q < 9 \<longrightarrow>
         val (cell_of g' q) = val (cell_of g q) \<and>
         set (candidates (cell_of g' q)) \<subseteq> set (candidates (cell_of g q)) \<and>
         (distinct (candidates (cell_of g q)) \<longrightarrow> distinct (candidates (cell_of g' q)))))"

lemma prunedD:
  assumes "pruned g g'" "fst q < 9" "snd q < 9"
  shows "val (cell_of g' q) = val (cell_of g q)"
    "set (candidates (cell_of g' q)) \<subseteq> set (candidates (cell_of g q))"
    "distinct (candidates (cell_of g q)) \<Longrightarrow> distinct (candidates (cell_of g' q))"
proof -
  from assms(1) have "\<forall>q. fst q < 9 \<and> snd q < 9 \<longrightarrow>
         val (cell_of g' q) = val (cell_of g q) \<and>
         set (candidates (cell_of g' q)) \<subseteq> set (candidates (cell_of g q)) \<and>
         (distinct (candidates (cell_of g q)) \<longrightarrow> distinct (candidates (cell_of g' q)))"
    unfolding pruned_def by (rule conjunct2)
  then have "fst q < 9 \<and> snd q < 9 \<longrightarrow>
         val (cell_of g' q) = val (cell_of g q) \<and>
         set (candidates (cell_of g' q)) \<subseteq> set (candidates (cell_of g q)) \<and>
         (distinct (candidates (cell_of g q)) \<longrightarrow> distinct (candidates (cell_of g' q)))"
    by (rule spec)
  with assms(2,3) show "val (cell_of g' q) = val (cell_of g q)"
    "set (candidates (cell_of g' q)) \<subseteq> set (candidates (cell_of g q))"
    "distinct (candidates (cell_of g q)) \<Longrightarrow> distinct (candidates (cell_of g' q))"
    by simp_all
qed

lemma pruned_wf: "pruned g g' \<Longrightarrow> wf_grid g'"
  by (simp only: pruned_def)

lemma prunedI:
  assumes "wf_grid g'"
    and "\<And>q. fst q < 9 \<Longrightarrow> snd q < 9 \<Longrightarrow>
         val (cell_of g' q) = val (cell_of g q) \<and>
         set (candidates (cell_of g' q)) \<subseteq> set (candidates (cell_of g q)) \<and>
         (distinct (candidates (cell_of g q)) \<longrightarrow> distinct (candidates (cell_of g' q)))"
  shows "pruned g g'"
  unfolding pruned_def using assms by blast

lemma pruned_refl: "wf_grid g \<Longrightarrow> pruned g g"
  by (rule prunedI) simp_all

lemma pruned_trans:
  assumes "pruned g g1" "pruned g1 g2"
  shows "pruned g g2"
proof (rule prunedI)
  show "wf_grid g2" using assms(2) by (rule pruned_wf)
next
  fix q :: "nat \<times> nat" assume q: "fst q < 9" "snd q < 9"
  from prunedD[OF assms(1) q] prunedD[OF assms(2) q]
  show "val (cell_of g2 q) = val (cell_of g q) \<and>
         set (candidates (cell_of g2 q)) \<subseteq> set (candidates (cell_of g q)) \<and>
         (distinct (candidates (cell_of g q)) \<longrightarrow> distinct (candidates (cell_of g2 q)))"
    by auto
qed

lemma pruned_put_cell:
  assumes wf: "wf_grid g" and p: "fst p < 9" "snd p < 9"
    and "set cs \<subseteq> set (candidates (cell_of g p))"
    and "distinct (candidates (cell_of g p)) \<longrightarrow> distinct cs"
  shows "pruned g (put_cell g (fst p) (snd p) ((cell_of g p)\<lparr>candidates := cs\<rparr>))"
proof (rule prunedI)
  show "wf_grid (put_cell g (fst p) (snd p) ((cell_of g p)\<lparr>candidates := cs\<rparr>))"
    using wf by (rule wf_grid_put_cell)
next
  fix q :: "nat \<times> nat" assume q: "fst q < 9" "snd q < 9"
  let ?g' = "put_cell g (fst p) (snd p) ((cell_of g p)\<lparr>candidates := cs\<rparr>)"
  have "cell_of ?g' q =
      (if q = (fst p, snd p) then (cell_of g p)\<lparr>candidates := cs\<rparr> else cell_of g q)"
    by (rule cell_of_put_cell[OF wf p q])
  then have "cell_of ?g' q = (if q = p then (cell_of g p)\<lparr>candidates := cs\<rparr> else cell_of g q)"
    by simp
  with assms(4,5)
  show "val (cell_of ?g' q) = val (cell_of g q) \<and>
         set (candidates (cell_of ?g' q)) \<subseteq> set (candidates (cell_of g q)) \<and>
         (distinct (candidates (cell_of g q)) \<longrightarrow> distinct (candidates (cell_of ?g' q)))"
    by (cases "q = p") simp_all
qed

text \<open>The step of the peer loop on a nine by nine grid.\<close>

lemma remove_from_peer_wf:
  assumes "wf_grid g" "fst q < 9" "snd q < 9"
  shows "remove_from_peer v q g =
     Some (case v of
             None \<Rightarrow> g
           | Some x \<Rightarrow>
               if val (cell_of g q) = None \<and> x \<in> set (candidates (cell_of g q))
               then put_cell g (fst q) (snd q)
                      ((cell_of g q)\<lparr>candidates := remove1 x (candidates (cell_of g q))\<rparr>)
               else g)"
  using assms by (cases v) (simp_all add: remove_from_peer_def cell_at_cell_of)

lemma remove_from_peer_pruned:
  assumes "wf_grid g" "fst q < 9" "snd q < 9" "remove_from_peer v q g = Some g'"
  shows "pruned g g'"
proof (cases v)
  case None
  with assms remove_from_peer_wf[OF assms(1-3), of v] show ?thesis
    by (simp add: pruned_refl)
next
  case (Some x)
  show ?thesis
  proof (cases "val (cell_of g q) = None \<and> x \<in> set (candidates (cell_of g q))")
    case True
    with Some assms(4) remove_from_peer_wf[OF assms(1-3), of v]
    have "g' = put_cell g (fst q) (snd q)
                 ((cell_of g q)\<lparr>candidates := remove1 x (candidates (cell_of g q))\<rparr>)"
      by simp
    moreover have "pruned g (put_cell g (fst q) (snd q)
                 ((cell_of g q)\<lparr>candidates := remove1 x (candidates (cell_of g q))\<rparr>))"
      using assms(1-3) by (intro pruned_put_cell) (auto simp: set_remove1_subset)
    ultimately show ?thesis by simp
  next
    case False
    with Some assms(4) remove_from_peer_wf[OF assms(1-3), of v] have "g' = g" by auto
    with assms(1) show ?thesis by (simp add: pruned_refl)
  qed
qed

lemma remove_from_peer_removes:
  assumes "wf_grid g" "fst q < 9" "snd q < 9" "remove_from_peer (Some x) q g = Some g'"
    and "distinct (candidates (cell_of g q))" and "val (cell_of g' q) = None"
  shows "x \<notin> set (candidates (cell_of g' q))"
proof (cases "val (cell_of g q) = None \<and> x \<in> set (candidates (cell_of g q))")
  case True
  with assms(4) remove_from_peer_wf[OF assms(1-3), of "Some x"]
  have "g' = put_cell g (fst q) (snd q)
               ((cell_of g q)\<lparr>candidates := remove1 x (candidates (cell_of g q))\<rparr>)"
    by simp
  then have "candidates (cell_of g' q) = remove1 x (candidates (cell_of g q))"
    using cell_of_put_cell[OF assms(1-3) assms(2,3)] by simp
  with assms(5) show ?thesis by simp
next
  case False
  with assms(4) remove_from_peer_wf[OF assms(1-3), of "Some x"] have "g' = g" by auto
  with False assms(6) show ?thesis by simp
qed

lemma peer_loop:
  assumes "wf_grid g" "in_grid qs" "for_each (remove_from_peer v) qs g = Some g'"
  shows "pruned g g'"
  using assms
proof (induction qs arbitrary: g)
  case Nil
  then show ?case by (simp add: pruned_refl)
next
  case (Cons q qs)
  from Cons.prems(2) have q: "fst q < 9" "snd q < 9" and rest: "in_grid qs" by simp_all
  from Cons.prems(3) obtain g1 where s: "remove_from_peer v q g = Some g1"
    and r: "for_each (remove_from_peer v) qs g1 = Some g'"
    by (auto split: option.splits)
  from remove_from_peer_pruned[OF Cons.prems(1) q s] have p1: "pruned g g1" .
  from Cons.IH[OF pruned_wf[OF p1] rest r] p1 show ?case by (blast intro: pruned_trans)
qed

lemma peer_loop_removes:
  assumes "wf_grid g" "in_grid qs" "for_each (remove_from_peer (Some x)) qs g = Some g'"
    and "\<forall>q \<in> set qs. distinct (candidates (cell_of g q))"
  shows "\<forall>q \<in> set qs. val (cell_of g' q) = None \<longrightarrow> x \<notin> set (candidates (cell_of g' q))"
  using assms
proof (induction qs arbitrary: g)
  case Nil
  then show ?case by simp
next
  case (Cons q qs)
  from Cons.prems(2) have q: "fst q < 9" "snd q < 9" and rest: "in_grid qs" by simp_all
  from Cons.prems(3) obtain g1 where s: "remove_from_peer (Some x) q g = Some g1"
    and r: "for_each (remove_from_peer (Some x)) qs g1 = Some g'"
    by (auto split: option.splits)
  from remove_from_peer_pruned[OF Cons.prems(1) q s] have p1: "pruned g g1" .
  note wf1 = pruned_wf[OF p1]
  from peer_loop[OF wf1 rest r] have p2: "pruned g1 g'" .
  have d1: "\<forall>q' \<in> set qs. distinct (candidates (cell_of g1 q'))"
  proof
    fix q' assume q': "q' \<in> set qs"
    with rest have "fst q' < 9" "snd q' < 9" by (auto dest: in_grid_mem)
    from prunedD(3)[OF p1 this] Cons.prems(4) q'
    show "distinct (candidates (cell_of g1 q'))" by simp
  qed
  have "val (cell_of g' q) = None \<longrightarrow> x \<notin> set (candidates (cell_of g' q))"
  proof
    assume e: "val (cell_of g' q) = None"
    with prunedD(1)[OF p2 q] have "val (cell_of g1 q) = None" by simp
    with remove_from_peer_removes[OF Cons.prems(1) q s] Cons.prems(4)
    have "x \<notin> set (candidates (cell_of g1 q))" by simp
    with prunedD(2)[OF p2 q] show "x \<notin> set (candidates (cell_of g' q))" by blast
  qed
  with Cons.IH[OF wf1 rest r d1] show ?case by simp
qed

text \<open>
  \<open>settled g p\<close>: the cell \<open>p\<close> has no candidates, and its value is a candidate of none of
  the cells of its row, column and block that have no value.
\<close>

definition settled :: "grid \<Rightarrow> nat \<times> nat \<Rightarrow> bool" where
  "settled g p =
     (candidates (cell_of g p) = [] \<and>
      (\<forall>x. val (cell_of g p) = Some x \<longrightarrow>
         (\<forall>q \<in> set (fill_peers (fst p) (snd p)).
            val (cell_of g q) = None \<longrightarrow> x \<notin> set (candidates (cell_of g q)))))"

lemma for_each_id:
  "(\<And>x. x \<in> set xs \<Longrightarrow> body x s = Some s) \<Longrightarrow> for_each body xs s = Some s"
  by (induction xs) simp_all

lemma remove_filled_wf:
  assumes "wf_grid g" "fst p < 9" "snd p < 9"
  shows "remove_filled p g =
     for_each (remove_from_peer (val (cell_of g p))) (fill_peers (fst p) (snd p))
       (put_cell g (fst p) (snd p) ((cell_of g p)\<lparr>candidates := []\<rparr>))"
  using assms by (simp add: remove_filled_def cell_at_cell_of)

lemma remove_filled_settled_id:
  assumes wf: "wf_grid g" and p: "fst p < 9" "snd p < 9" and st: "settled g p"
  shows "remove_filled p g = Some g"
proof -
  from st have "(cell_of g p)\<lparr>candidates := []\<rparr> = cell_of g p" by (simp add: settled_def)
  with put_cell_same[OF cell_at_cell_of[OF wf p]]
  have pc: "put_cell g (fst p) (snd p) ((cell_of g p)\<lparr>candidates := []\<rparr>) = g" by simp
  have "for_each (remove_from_peer (val (cell_of g p))) (fill_peers (fst p) (snd p)) g = Some g"
  proof (rule for_each_id)
    fix q assume q: "q \<in> set (fill_peers (fst p) (snd p))"
    from in_grid_mem[OF in_grid_fill_peers[OF p] q] have ig: "fst q < 9" "snd q < 9" by simp_all
    show "remove_from_peer (val (cell_of g p)) q g = Some g"
    proof (cases "val (cell_of g p)")
      case None
      with remove_from_peer_wf[OF wf ig] show ?thesis by simp
    next
      case (Some x)
      with st q have "val (cell_of g q) = None \<longrightarrow> x \<notin> set (candidates (cell_of g q))"
        by (simp add: settled_def)
      with Some remove_from_peer_wf[OF wf ig, of "val (cell_of g p)"] show ?thesis by auto
    qed
  qed
  with pc remove_filled_wf[OF wf p] show ?thesis by simp
qed

lemma remove_filled_pruned:
  assumes wf: "wf_grid g" and p: "fst p < 9" "snd p < 9" and rf: "remove_filled p g = Some g'"
  shows "pruned g g'"
proof -
  let ?g0 = "put_cell g (fst p) (snd p) ((cell_of g p)\<lparr>candidates := []\<rparr>)"
  have p0: "pruned g ?g0" using wf p by (intro pruned_put_cell) simp_all
  from rf remove_filled_wf[OF wf p]
  have "for_each (remove_from_peer (val (cell_of g p))) (fill_peers (fst p) (snd p)) ?g0 = Some g'"
    by simp
  from peer_loop[OF pruned_wf[OF p0] in_grid_fill_peers[OF p] this] p0
  show ?thesis by (blast intro: pruned_trans)
qed

lemma distinct_candidatesD:
  "distinct_candidates g \<Longrightarrow> fst q < 9 \<Longrightarrow> snd q < 9 \<Longrightarrow> distinct (candidates (cell_of g q))"
  by (cases q) (simp add: distinct_candidates_def list_all_iff set_all_cells)

lemma distinct_candidates_pruned:
  assumes "distinct_candidates g" "pruned g g'"
  shows "distinct_candidates g'"
  unfolding distinct_candidates_def list_all_iff
proof
  fix q assume "q \<in> set all_cells"
  then have q: "fst q < 9" "snd q < 9" by (auto simp: set_all_cells)
  from prunedD(3)[OF assms(2) q] distinct_candidatesD[OF assms(1) q]
  show "distinct (candidates (cell_of g' q))" by simp
qed

lemma remove_filled_settles:
  assumes wf: "wf_grid g" and p: "fst p < 9" "snd p < 9" and rf: "remove_filled p g = Some g'"
    and dc: "distinct_candidates g"
  shows "settled g' p"
proof -
  let ?g0 = "put_cell g (fst p) (snd p) ((cell_of g p)\<lparr>candidates := []\<rparr>)"
  let ?qs = "fill_peers (fst p) (snd p)"
  have p0: "pruned g ?g0" using wf p by (intro pruned_put_cell) simp_all
  note wf0 = pruned_wf[OF p0]
  from rf remove_filled_wf[OF wf p]
  have loop: "for_each (remove_from_peer (val (cell_of g p))) ?qs ?g0 = Some g'" by simp
  from peer_loop[OF wf0 in_grid_fill_peers[OF p] loop] have p1: "pruned ?g0 g'" .
  have "candidates (cell_of ?g0 p) = []"
    using cell_of_put_cell[OF wf p p] by simp
  with prunedD(2)[OF p1 p] have c: "candidates (cell_of g' p) = []" by simp
  have v: "val (cell_of g' p) = val (cell_of g p)"
    using prunedD(1)[OF p1 p] prunedD(1)[OF p0 p] by simp
  have d0: "\<forall>q \<in> set ?qs. distinct (candidates (cell_of ?g0 q))"
  proof
    fix q assume "q \<in> set ?qs"
    from in_grid_mem[OF in_grid_fill_peers[OF p] this] have q: "fst q < 9" "snd q < 9"
      by simp_all
    from distinct_candidatesD[OF distinct_candidates_pruned[OF dc p0] q]
    show "distinct (candidates (cell_of ?g0 q))" .
  qed
  show ?thesis
    unfolding settled_def
  proof (intro conjI allI impI)
    show "candidates (cell_of g' p) = []" by (rule c)
  next
    fix x assume "val (cell_of g' p) = Some x"
    with v have "val (cell_of g p) = Some x" by simp
    with loop have "for_each (remove_from_peer (Some x)) ?qs ?g0 = Some g'" by simp
    from peer_loop_removes[OF wf0 in_grid_fill_peers[OF p] this d0]
    show "\<forall>q \<in> set ?qs. val (cell_of g' q) = None \<longrightarrow> x \<notin> set (candidates (cell_of g' q))" .
  qed
qed

lemma settled_pruned:
  assumes "settled g p" "pruned g g'" "fst p < 9" "snd p < 9"
  shows "settled g' p"
  unfolding settled_def
proof (intro conjI allI impI ballI)
  from assms(1) prunedD(2)[OF assms(2-4)] show "candidates (cell_of g' p) = []"
    by (simp add: settled_def)
next
  fix x q
  assume x: "val (cell_of g' p) = Some x" and q: "q \<in> set (fill_peers (fst p) (snd p))"
    and e: "val (cell_of g' q) = None"
  from in_grid_mem[OF in_grid_fill_peers[OF assms(3,4)] q] have ig: "fst q < 9" "snd q < 9"
    by simp_all
  from x prunedD(1)[OF assms(2-4)] have "val (cell_of g p) = Some x" by simp
  moreover from e prunedD(1)[OF assms(2) ig] have "val (cell_of g q) = None" by simp
  ultimately have "x \<notin> set (candidates (cell_of g q))"
    using assms(1) q by (simp add: settled_def)
  with prunedD(2)[OF assms(2) ig] show "x \<notin> set (candidates (cell_of g' q))" by blast
qed

lemma remove_filled_candidates_settles:
  assumes "wf_grid g" "distinct_candidates g" "in_grid ps"
    "remove_filled_candidates g ps = Some g1"
  shows "pruned g g1 \<and> (\<forall>p \<in> set ps. settled g1 p)"
  using assms
proof (induction ps arbitrary: g)
  case Nil
  then show ?case by (simp add: remove_filled_candidates_def pruned_refl)
next
  case (Cons p ps)
  from Cons.prems(3) have p: "fst p < 9" "snd p < 9" and rest: "in_grid ps" by simp_all
  from Cons.prems(4) obtain g' where s: "remove_filled p g = Some g'"
    and r: "remove_filled_candidates g' ps = Some g1"
    by (auto simp: remove_filled_candidates_def split: option.splits)
  from remove_filled_pruned[OF Cons.prems(1) p s] have p1: "pruned g g'" .
  from remove_filled_settles[OF Cons.prems(1) p s Cons.prems(2)] have st: "settled g' p" .
  from Cons.IH[OF pruned_wf[OF p1] distinct_candidates_pruned[OF Cons.prems(2) p1] rest r]
  have p2: "pruned g' g1" and all: "\<forall>q \<in> set ps. settled g1 q" by simp_all
  from settled_pruned[OF st p2 p] all p1 p2 show ?case
    by (auto intro: pruned_trans)
qed

lemma remove_filled_candidates_id:
  assumes "wf_grid g" "in_grid ps" "\<forall>p \<in> set ps. settled g p"
  shows "remove_filled_candidates g ps = Some g"
  unfolding remove_filled_candidates_def
proof (rule for_each_id)
  fix p assume "p \<in> set ps"
  with assms(2,3) have "fst p < 9" "snd p < 9" "settled g p" by (auto dest: in_grid_mem)
  with assms(1) show "remove_filled p g = Some g" by (intro remove_filled_settled_id)
qed

section \<open>The naked-pair pass, unit by unit\<close>

lemma eliminate_cell_wf:
  assumes "wf_grid g" "fst p < 9" "snd p < 9"
  shows "eliminate_cell keep nums p (changed, g) =
     Some (if p \<notin> set keep \<and> val (cell_of g p) = None
           then (changed \<or> filter (\<lambda>n. n \<notin> set nums) (candidates (cell_of g p))
                              \<noteq> candidates (cell_of g p),
                 put_cell g (fst p) (snd p)
                   ((cell_of g p)\<lparr>candidates :=
                      filter (\<lambda>n. n \<notin> set nums) (candidates (cell_of g p))\<rparr>))
           else (changed, g))"
  using assms by (simp add: eliminate_cell_def cell_at_cell_of Let_def)

lemma cell_of_put_cell_at:
  assumes "wf_grid g" "fst p < 9" "snd p < 9" "fst q < 9" "snd q < 9"
  shows "cell_of (put_cell g (fst p) (snd p) y) q = (if q = p then y else cell_of g q)"
  using cell_of_put_cell[OF assms, of y] by simp

lemma eliminate_loop_cells:
  assumes "wf_grid g" "in_grid u"
    and "for_each (eliminate_cell keep nums) u (changed, g) = Some (changed', g')"
  shows "wf_grid g' \<and>
     (\<forall>q. fst q < 9 \<and> snd q < 9 \<longrightarrow>
        cell_of g' q =
          (if q \<in> set u \<and> q \<notin> set keep \<and> val (cell_of g q) = None
           then (cell_of g q)\<lparr>candidates :=
                   filter (\<lambda>n. n \<notin> set nums) (candidates (cell_of g q))\<rparr>
           else cell_of g q))"
  using assms
proof (induction u arbitrary: changed g)
  case Nil
  then show ?case by simp
next
  case (Cons p u)
  from Cons.prems(2) have p: "fst p < 9" "snd p < 9" and rest: "in_grid u" by simp_all
  let ?f = "\<lambda>c. c\<lparr>candidates := filter (\<lambda>n. n \<notin> set nums) (candidates c)\<rparr>"
  let ?hit = "p \<notin> set keep \<and> val (cell_of g p) = None"
  let ?g1 = "if ?hit then put_cell g (fst p) (snd p) (?f (cell_of g p)) else g"
  from Cons.prems(3) eliminate_cell_wf[OF Cons.prems(1) p, of keep nums changed]
  obtain c1 where r: "for_each (eliminate_cell keep nums) u (c1, ?g1) = Some (changed', g')"
    by (auto split: if_splits)
  have wf1: "wf_grid ?g1" using Cons.prems(1) by (simp add: wf_grid_put_cell)
  have c1: "\<And>q. fst q < 9 \<Longrightarrow> snd q < 9 \<Longrightarrow>
      cell_of ?g1 q = (if q = p \<and> ?hit then ?f (cell_of g p) else cell_of g q)"
  proof -
    fix q :: "nat \<times> nat" assume q: "fst q < 9" "snd q < 9"
    show "cell_of ?g1 q = (if q = p \<and> ?hit then ?f (cell_of g p) else cell_of g q)"
    proof (cases ?hit)
      case True
      then have "?g1 = put_cell g (fst p) (snd p) (?f (cell_of g p))" by simp
      with True cell_of_put_cell_at[OF Cons.prems(1) p q, of "?f (cell_of g p)"]
      show ?thesis by simp
    next
      case False
      then have "?g1 = g" by auto
      with False show ?thesis by auto
    qed
  qed
  from Cons.IH[OF wf1 rest r] have wf': "wf_grid g'"
    and ih: "\<forall>q. fst q < 9 \<and> snd q < 9 \<longrightarrow>
        cell_of g' q =
          (if q \<in> set u \<and> q \<notin> set keep \<and> val (cell_of ?g1 q) = None
           then ?f (cell_of ?g1 q) else cell_of ?g1 q)"
    by blast+
  have "\<forall>q. fst q < 9 \<and> snd q < 9 \<longrightarrow>
        cell_of g' q =
          (if q \<in> set (p # u) \<and> q \<notin> set keep \<and> val (cell_of g q) = None
           then ?f (cell_of g q) else cell_of g q)"
  proof (intro allI impI)
    fix q :: "nat \<times> nat" assume q: "fst q < 9 \<and> snd q < 9"
    from ih q have e: "cell_of g' q =
          (if q \<in> set u \<and> q \<notin> set keep \<and> val (cell_of ?g1 q) = None
           then ?f (cell_of ?g1 q) else cell_of ?g1 q)" by blast
    from q c1[of q] have e1: "cell_of ?g1 q = (if q = p \<and> ?hit then ?f (cell_of g p) else cell_of g q)"
      by simp
    show "cell_of g' q =
          (if q \<in> set (p # u) \<and> q \<notin> set keep \<and> val (cell_of g q) = None
           then ?f (cell_of g q) else cell_of g q)"
      unfolding e e1 by (cases "q = p") auto
  qed
  with wf' show ?case by blast
qed

lemma unit_pairs_collect:
  "wf_grid g \<Longrightarrow> in_grid u \<Longrightarrow> collect_cands g (\<lambda>k. k = 2) u = Some (unit_pairs g u)"
  by (simp add: collect_cands_wf unit_pairs_def)

lemma naked_pair_unit_cells:
  assumes wf: "wf_grid g" and ig: "in_grid u"
  shows "\<exists>changed' g'. naked_pair_unit u (changed, g) = Some (changed', g') \<and> wf_grid g' \<and>
     (\<forall>q. fst q < 9 \<and> snd q < 9 \<longrightarrow>
        cell_of g' q =
          (if q \<in> set u then (cell_of g q)\<lparr>candidates := pair_eliminated g u q\<rparr>
           else cell_of g q))"
proof (cases "first_pair (unit_pairs g u)")
  case None
  then have "naked_pair_unit u (changed, g) = Some (changed, g)"
    using wf ig by (simp add: naked_pair_unit_def unit_pairs_collect)
  moreover have "\<forall>q. fst q < 9 \<and> snd q < 9 \<longrightarrow>
        cell_of g q =
          (if q \<in> set u then (cell_of g q)\<lparr>candidates := pair_eliminated g u q\<rparr>
           else cell_of g q)"
    using None by (simp add: pair_eliminated_def)
  ultimately show ?thesis using wf by blast
next
  case (Some t)
  obtain p1 p2 cand1 where t: "t = (p1, p2, cand1)" by (cases t)
  from eliminate_loop_total[of "(changed, g)" u "[p1, p2]" cand1] wf ig
  obtain s' where s': "for_each (eliminate_cell [p1, p2] cand1) u (changed, g) = Some s'"
    by auto
  obtain changed' g' where sg: "s' = (changed', g')" by (cases s')
  from eliminate_loop_cells[OF wf ig s'[unfolded sg]]
  have wf': "wf_grid g'" and cells: "\<forall>q. fst q < 9 \<and> snd q < 9 \<longrightarrow>
        cell_of g' q =
          (if q \<in> set u \<and> q \<notin> set [p1, p2] \<and> val (cell_of g q) = None
           then (cell_of g q)\<lparr>candidates :=
                   filter (\<lambda>n. n \<notin> set cand1) (candidates (cell_of g q))\<rparr>
           else cell_of g q)"
    by blast+
  have np: "naked_pair_unit u (changed, g) = Some (changed', g')"
    using Some t s' sg wf ig by (simp add: naked_pair_unit_def unit_pairs_collect)
  have "\<forall>q. fst q < 9 \<and> snd q < 9 \<longrightarrow>
        cell_of g' q =
          (if q \<in> set u then (cell_of g q)\<lparr>candidates := pair_eliminated g u q\<rparr>
           else cell_of g q)"
  proof (intro allI impI)
    fix q :: "nat \<times> nat" assume q: "fst q < 9 \<and> snd q < 9"
    with cells have e: "cell_of g' q =
          (if q \<in> set u \<and> q \<notin> set [p1, p2] \<and> val (cell_of g q) = None
           then (cell_of g q)\<lparr>candidates :=
                   filter (\<lambda>n. n \<notin> set cand1) (candidates (cell_of g q))\<rparr>
           else cell_of g q)" by blast
    show "cell_of g' q =
          (if q \<in> set u then (cell_of g q)\<lparr>candidates := pair_eliminated g u q\<rparr>
           else cell_of g q)"
      unfolding e using Some t by (auto simp: pair_eliminated_def)
  qed
  with np wf' show ?thesis by blast
qed

lemma unit_pairs_cong:
  assumes "\<forall>p \<in> set u. cell_of g1 p = cell_of g p"
  shows "unit_pairs g1 u = unit_pairs g u"
proof -
  have f: "filter (\<lambda>p. val (cell_of g1 p) = None \<and> length (candidates (cell_of g1 p)) = 2) u =
        filter (\<lambda>p. val (cell_of g p) = None \<and> length (candidates (cell_of g p)) = 2) u"
    by (rule filter_cong) (use assms in auto)
  have m: "map (\<lambda>p. (p, candidates (cell_of g1 p)))
             (filter (\<lambda>p. val (cell_of g p) = None \<and> length (candidates (cell_of g p)) = 2) u) =
           map (\<lambda>p. (p, candidates (cell_of g p)))
             (filter (\<lambda>p. val (cell_of g p) = None \<and> length (candidates (cell_of g p)) = 2) u)"
    by (rule map_cong) (use assms in auto)
  show ?thesis unfolding unit_pairs_def f m ..
qed

lemma pair_eliminated_cong:
  assumes "\<forall>p \<in> set u. cell_of g1 p = cell_of g p" "q \<in> set u"
  shows "pair_eliminated g1 u q = pair_eliminated g u q"
proof -
  from assms have e: "cell_of g1 q = cell_of g q" by blast
  show ?thesis unfolding pair_eliminated_def unit_pairs_cong[OF assms(1)] e ..
qed

lemma naked_pair_units_cells:
  assumes "wf_grid g" "\<forall>u \<in> set us. in_grid u" "disjoint_units us"
  shows "\<exists>changed' g'. for_each naked_pair_unit us (changed, g) = Some (changed', g') \<and>
     wf_grid g' \<and>
     (\<forall>u \<in> set us. \<forall>q \<in> set u.
        cell_of g' q = (cell_of g q)\<lparr>candidates := pair_eliminated g u q\<rparr>) \<and>
     (\<forall>q. fst q < 9 \<and> snd q < 9 \<longrightarrow> (\<forall>u \<in> set us. q \<notin> set u) \<longrightarrow> cell_of g' q = cell_of g q)"
  using assms
proof (induction us arbitrary: changed g)
  case Nil
  then show ?case by simp
next
  case (Cons u us)
  from Cons.prems(2) have ig: "in_grid u" and rest: "\<forall>v \<in> set us. in_grid v" by simp_all
  from Cons.prems(3) have dj: "\<forall>v \<in> set us. \<forall>p \<in> set u. p \<notin> set v" and dr: "disjoint_units us"
    by (simp_all add: list_all_iff)
  from naked_pair_unit_cells[OF Cons.prems(1) ig, of changed]
  obtain c1 g1 where s1: "naked_pair_unit u (changed, g) = Some (c1, g1)" and wf1: "wf_grid g1"
    and cells1: "\<forall>q. fst q < 9 \<and> snd q < 9 \<longrightarrow>
        cell_of g1 q =
          (if q \<in> set u then (cell_of g q)\<lparr>candidates := pair_eliminated g u q\<rparr>
           else cell_of g q)"
    by blast
  from Cons.IH[OF wf1 rest dr, of c1]
  obtain c2 g2 where s2: "for_each naked_pair_unit us (c1, g1) = Some (c2, g2)"
    and wf2: "wf_grid g2"
    and in2: "\<forall>v \<in> set us. \<forall>q \<in> set v.
        cell_of g2 q = (cell_of g1 q)\<lparr>candidates := pair_eliminated g1 v q\<rparr>"
    and out2: "\<forall>q. fst q < 9 \<and> snd q < 9 \<longrightarrow> (\<forall>v \<in> set us. q \<notin> set v) \<longrightarrow>
        cell_of g2 q = cell_of g1 q"
    by blast
  have c1d: "cell_of g1 q =
          (if q \<in> set u then (cell_of g q)\<lparr>candidates := pair_eliminated g u q\<rparr>
           else cell_of g q)" if "fst q < 9 \<and> snd q < 9" for q
    using cells1[rule_format, OF that] .
  have o2d: "cell_of g2 q = cell_of g1 q"
    if "fst q < 9 \<and> snd q < 9" "\<forall>v \<in> set us. q \<notin> set v" for q
    using out2[rule_format, OF that(1)] that(2) by blast
  have same1: "\<And>v q. v \<in> set us \<Longrightarrow> q \<in> set v \<Longrightarrow> cell_of g1 q = cell_of g q"
  proof -
    fix v q assume v: "v \<in> set us" and q: "q \<in> set v"
    with rest have "fst q < 9 \<and> snd q < 9" by (auto dest: in_grid_mem)
    moreover from dj v q have "q \<notin> set u" by blast
    ultimately show "cell_of g1 q = cell_of g q" using c1d[of q] by simp
  qed
  have a: "\<forall>v \<in> set (u # us). \<forall>q \<in> set v.
        cell_of g2 q = (cell_of g q)\<lparr>candidates := pair_eliminated g v q\<rparr>"
  proof (intro ballI)
    fix v q assume v: "v \<in> set (u # us)" and q: "q \<in> set v"
    show "cell_of g2 q = (cell_of g q)\<lparr>candidates := pair_eliminated g v q\<rparr>"
    proof (cases "v \<in> set us")
      case True
      have "\<forall>p \<in> set v. cell_of g1 p = cell_of g p" using same1[OF True] by blast
      from pair_eliminated_cong[OF this q] in2 True q same1[OF True q]
      show ?thesis by simp
    next
      case False
      with v have vu: "v = u" by simp
      with q ig have qg: "fst q < 9 \<and> snd q < 9" by (auto dest: in_grid_mem)
      from dj q vu have "\<forall>w \<in> set us. q \<notin> set w" by blast
      with o2d[OF qg] have "cell_of g2 q = cell_of g1 q" by simp
      with c1d[OF qg] q vu show ?thesis by simp
    qed
  qed
  have b: "\<forall>q. fst q < 9 \<and> snd q < 9 \<longrightarrow> (\<forall>v \<in> set (u # us). q \<notin> set v) \<longrightarrow>
        cell_of g2 q = cell_of g q"
  proof (intro allI impI)
    fix q :: "nat \<times> nat"
    assume qg: "fst q < 9 \<and> snd q < 9" and no: "\<forall>v \<in> set (u # us). q \<notin> set v"
    then have "cell_of g2 q = cell_of g1 q" using o2d[of q] by simp
    moreover have "cell_of g1 q = cell_of g q" using c1d[OF qg] no by simp
    ultimately show "cell_of g2 q = cell_of g q" by simp
  qed
  from s1 s2 wf2 a b show ?case by simp
qed

lemma disjoint_block_units: "disjoint_units block_units"
  by code_simp

subsection \<open>The recomputation builds lists without repetition\<close>

lemma valid_numbers_distinct:
  "valid_numbers g p ns = Some vs \<Longrightarrow> distinct ns \<Longrightarrow> distinct vs \<and> set vs \<subseteq> set ns"
  by (induction ns arbitrary: vs) (auto split: option.splits if_splits)

lemma candidates_cell_distinct:
  assumes "wf_grid g" "fst p < 9" "snd p < 9" "distinct_candidates g"
    and "candidates_cell p g = Some g'"
  shows "distinct_candidates g'"
proof (cases "val (cell_of g p) = None")
  case False
  with assms(1-3,5) have "g' = g" by (simp add: candidates_cell_def cell_at_cell_of)
  with assms(4) show ?thesis by simp
next
  case True
  with assms(1-3,5) obtain vs where vs: "valid_numbers g p [1..9] = Some vs"
    and g': "g' = put_cell g (fst p) (snd p) ((cell_of g p)\<lparr>candidates := vs\<rparr>)"
    by (auto simp: candidates_cell_def cell_at_cell_of split: option.splits)
  from valid_numbers_distinct[OF vs] have dv: "distinct vs" by simp
  show ?thesis unfolding distinct_candidates_def list_all_iff
  proof
    fix q assume "q \<in> set all_cells"
    then have q: "fst q < 9" "snd q < 9" by (auto simp: set_all_cells)
    from cell_of_put_cell_at[OF assms(1-3) q, of "(cell_of g p)\<lparr>candidates := vs\<rparr>"]
    have "cell_of g' q = (if q = p then (cell_of g p)\<lparr>candidates := vs\<rparr> else cell_of g q)"
      unfolding g' .
    with dv distinct_candidatesD[OF assms(4) q]
    show "distinct (candidates (cell_of g' q))" by simp
  qed
qed

lemma get_cell_candidates_distinct:
  assumes "wf_grid g" "distinct_candidates g" "get_cell_candidates g = Some g'"
  shows "distinct_candidates g'"
proof -
  have "\<exists>s'. for_each candidates_cell all_cells g = Some s' \<and>
              (wf_grid s' \<and> distinct_candidates s')"
  proof (rule for_each_total[where I = "\<lambda>t. wf_grid t \<and> distinct_candidates t"])
    show "wf_grid g \<and> distinct_candidates g" using assms by simp
  next
    fix x :: "nat \<times> nat" and t :: grid
    assume x: "x \<in> set all_cells" and t: "wf_grid t \<and> distinct_candidates t"
    from x have xg: "fst x < 9" "snd x < 9" by (auto simp: set_all_cells)
    from t have wt: "wf_grid t" and dt: "distinct_candidates t" by simp_all
    from candidates_cell_total[OF wt xg] obtain t' where
      t': "candidates_cell x t = Some t'" "wf_grid t'" by blast
    from candidates_cell_distinct[OF wt xg dt t'(1)] t'
    show "\<exists>t'. candidates_cell x t = Some t' \<and> (wf_grid t' \<and> distinct_candidates t')"
      by blast
  qed
  with assms(3) show ?thesis by (simp add: get_cell_candidates_def)
qed

section \<open>When the backtracking solver succeeds\<close>

lemma case_option_ex:
  "(case x of None \<Rightarrow> False | Some n \<Rightarrow> P n) = (\<exists>n. x = Some n \<and> P n)"
  by (cases x) auto

lemma fills_iff:
  "fills g h =
     (keeps_values g h \<and> completely_filled h \<and>
      (\<forall>u \<in> set all_units. \<forall>p \<in> set u. val (cell_of g p) = None \<longrightarrow>
         (\<exists>n. val (cell_of h p) = Some n \<and> 1 \<le> n \<and> n \<le> 9 \<and>
              (\<forall>q \<in> set u. q \<noteq> p \<longrightarrow> val (cell_of h q) \<noteq> Some n))))"
proof -
  have A: "\<And>(q::nat \<times> nat) p P. (q = p \<or> P) = (q \<noteq> p \<longrightarrow> P)" by blast
  have B: "\<And>(x::int option) P. (x \<noteq> None \<or> P) = (x = None \<longrightarrow> P)" by blast
  show ?thesis
    unfolding fills_def unit_fills_def list_all_iff A B case_option_ex
    by (rule refl)
qed

lemma fillsD:
  assumes "fills g h" "u \<in> set all_units" "p \<in> set u" "val (cell_of g p) = None"
  shows "\<exists>n. val (cell_of h p) = Some n \<and> 1 \<le> n \<and> n \<le> 9 \<and>
              (\<forall>q \<in> set u. q \<noteq> p \<longrightarrow> val (cell_of h q) \<noteq> Some n)"
  using assms unfolding fills_iff by blast

lemma fills_keeps: "fills g h \<Longrightarrow> keeps_values g h"
  by (simp add: fills_iff)

lemma fills_filled: "fills g h \<Longrightarrow> completely_filled h"
  by (simp add: fills_iff)

lemma row_unit: "r < 9 \<Longrightarrow> c < 9 \<Longrightarrow> row_cells r \<in> set all_units \<and> (r, c) \<in> set (row_cells r)"
  by (simp add: all_units_def row_units_def set_row_cells)

lemma fills_value:
  assumes "fills g h" "r < 9" "c < 9" "val (cell_of g (r, c)) = None"
  shows "\<exists>v. val (cell_of h (r, c)) = Some v \<and> 1 \<le> v \<and> v \<le> 9"
  using fillsD[OF assms(1) _ _ assms(4), of "row_cells r"] row_unit[OF assms(2,3)] by blast

lemma fills_self:
  assumes "completely_filled g"
  shows "fills g g"
  unfolding fills_iff
proof (intro conjI ballI impI)
  fix u p assume u: "u \<in> set all_units" and p: "p \<in> set u" and e: "val (cell_of g p) = None"
  from in_grid_mem[OF all_units_in_grid[OF u] p] have "p \<in> set all_cells"
    by (cases p) (simp add: set_all_cells)
  with assms e have False by (auto simp: completely_filled_def list_all_iff)
  then show "\<exists>n. val (cell_of g p) = Some n \<and> 1 \<le> n \<and> n \<le> 9 \<and>
              (\<forall>q \<in> set u. q \<noteq> p \<longrightarrow> val (cell_of g q) \<noteq> Some n)" ..
qed (simp_all add: assms)

lemma fills_place_back:
  assumes wf: "wf_grid g" and rc: "r < 9" "c < 9" "val (cell_of g (r, c)) = None"
    and num: "1 \<le> num" "num \<le> 9" and ok: "valid_at g r c num"
    and f: "fills (place g r c num) g2"
  shows "fills g g2"
  unfolding fills_iff
proof (intro conjI ballI impI)
  have k12: "keeps_values (place g r c num) g2" using f by (rule fills_keeps)
  show k02: "keeps_values g g2"
    using keeps_values_place[OF wf rc] k12 by (rule keeps_values_trans)
  show "completely_filled g2" using f by (rule fills_filled)
  have "val (cell_of (place g r c num) (r, c)) = Some num"
    using wf rc by (simp add: cell_of_place)
  with keeps_valuesD[OF k12, of "(r, c)" num] rc
  have v2: "val (cell_of g2 (r, c)) = Some num" by simp
  fix u p assume u: "u \<in> set all_units" and p: "p \<in> set u" and e: "val (cell_of g p) = None"
  note ig = in_grid_mem[OF all_units_in_grid[OF u]]
  have cp: "\<And>q. q \<in> set u \<Longrightarrow> cell_of (place g r c num) q =
      (if q = (r, c) then (cell_of g (r, c))\<lparr>val := Some num\<rparr> else cell_of g q)"
    using ig by (intro cell_of_place[OF wf rc(1,2)]) auto
  show "\<exists>n. val (cell_of g2 p) = Some n \<and> 1 \<le> n \<and> n \<le> 9 \<and>
              (\<forall>q \<in> set u. q \<noteq> p \<longrightarrow> val (cell_of g2 q) \<noteq> Some n)"
  proof (cases "p = (r, c)")
    case False
    with cp[OF p] e have "val (cell_of (place g r c num) p) = None" by simp
    from fillsD[OF f u p this] show ?thesis .
  next
    case True
    have "\<forall>q \<in> set u. q \<noteq> p \<longrightarrow> val (cell_of g2 q) \<noteq> Some num"
    proof (intro ballI impI)
      fix q assume q: "q \<in> set u" "q \<noteq> p"
      from ig[OF q(1)] have iq: "fst q < 9" "snd q < 9" by simp_all
      show "val (cell_of g2 q) \<noteq> Some num"
      proof (cases "val (cell_of g q)")
        case (Some m)
        from keeps_valuesD[OF k02 iq Some] have g2q: "val (cell_of g2 q) = Some m" .
        from unit_subset_peers[OF u] p True q have "q \<in> set (peer_cells r c)" by auto
        with ok have "val_or0 (cell_of g q) \<noteq> num" by (simp add: valid_at_def)
        with Some have "m \<noteq> num" by (auto dest: val_or0_Some)
        with g2q show ?thesis by simp
      next
        case None
        with cp[OF q(1)] q(2) True have "val (cell_of (place g r c num) q) = None" by simp
        from fillsD[OF f u q(1) this] obtain m where
          m: "val (cell_of g2 q) = Some m"
             "\<forall>q' \<in> set u. q' \<noteq> q \<longrightarrow> val (cell_of g2 q') \<noteq> Some m" by blast
        from m(2) p have "p \<noteq> q \<longrightarrow> val (cell_of g2 p) \<noteq> Some m" by (rule bspec)
        with q(2) have "val (cell_of g2 p) \<noteq> Some m" by simp
        with v2 True have "m \<noteq> num" by auto
        with m(1) show ?thesis by simp
      qed
    qed
    with v2 True num show ?thesis by simp
  qed
qed

lemma fills_place:
  assumes wf: "wf_grid g" and rc: "r < 9" "c < 9"
    and f: "fills g h" and hv: "val (cell_of h (r, c)) = Some v"
  shows "fills (place g r c v) h"
  unfolding fills_iff
proof (intro conjI ballI impI)
  show "keeps_values (place g r c v) h"
    using keeps_values_place_solution[OF wf rc fills_keeps[OF f] hv] .
  show "completely_filled h" using f by (rule fills_filled)
  fix u p assume u: "u \<in> set all_units" and p: "p \<in> set u"
    and e: "val (cell_of (place g r c v) p) = None"
  from in_grid_mem[OF all_units_in_grid[OF u] p] have ip: "fst p < 9" "snd p < 9" by simp_all
  from cell_of_place[OF wf rc ip, of v] e have "p \<noteq> (r, c)" by auto
  with cell_of_place[OF wf rc ip, of v] e have "val (cell_of g p) = None" by simp
  from fillsD[OF f u p this]
  show "\<exists>n. val (cell_of h p) = Some n \<and> 1 \<le> n \<and> n \<le> 9 \<and>
              (\<forall>q \<in> set u. q \<noteq> p \<longrightarrow> val (cell_of h q) \<noteq> Some n)" .
qed

lemma valid_at_fills:
  assumes wf: "wf_grid g" and rc: "r < 9" "c < 9" "val (cell_of g (r, c)) = None"
    and f: "fills g h" and hv: "val (cell_of h (r, c)) = Some v"
  shows "valid_at g r c v"
  unfolding valid_at_def
proof (intro ballI notI)
  fix p assume p: "p \<in> set (peer_cells r c)" and e: "val_or0 (cell_of g p) = v"
  from in_grid_mem[OF in_grid_peer_cells[OF rc(1,2)] p] have ig: "fst p < 9" "snd p < 9"
    by simp_all
  from fills_value[OF f rc] hv have v: "1 \<le> v" by simp
  from e v have gp: "val (cell_of g p) = Some v"
    by (cases "val (cell_of g p)") (auto simp: val_or0_def)
  with rc(3) have ne: "p \<noteq> (r, c)" by auto
  from keeps_valuesD[OF fills_keeps[OF f] ig gp] have hp: "val (cell_of h p) = Some v" .
  from peers_share_unit[OF rc(1,2) p] obtain u where
    u: "u \<in> set all_units" "(r, c) \<in> set u" "p \<in> set u" by blast
  from fillsD[OF f u(1,2) rc(3)] hv have
    "\<forall>q \<in> set u. q \<noteq> (r, c) \<longrightarrow> val (cell_of h q) \<noteq> Some v" by auto
  with u(3) ne hp show False by blast
qed

subsection \<open>A true answer comes with a filling\<close>

lemma solve_nums_fills:
  assumes ih: "\<And>g1 g'. wf_grid g1 \<Longrightarrow> empties g1 < empties g \<Longrightarrow>
                 solve g1 = Some (True, g') \<Longrightarrow> fills g1 g'"
    and wf: "wf_grid g" and rc: "r < 9" "c < 9" "val (cell_of g (r, c)) = None"
    and "\<forall>n \<in> set nums. 1 \<le> n \<and> n \<le> 9"
    and "solve_nums g r c nums = Some (True, g')"
  shows "fills g g'"
  using assms(6,7)
proof (induction nums)
  case Nil
  then show ?case by simp
next
  case (Cons num nums)
  note eq = solve_nums_Cons_wf[OF wf rc, of num nums]
  show ?case
  proof (cases "valid_at g r c num")
    case False
    with Cons eq show ?thesis by simp
  next
    case True
    from solve_total_wf[OF wf_grid_place[OF wf]] obtain f1 g2 where
      s1: "solve (place g r c num) = Some (f1, g2)" by blast
    show ?thesis
    proof (cases f1)
      case T: True
      with True s1 eq Cons.prems have g': "g' = g2" by simp
      from s1 T have "solve (place g r c num) = Some (True, g2)" by simp
      from ih[OF wf_grid_place[OF wf] empties_place[OF wf rc] this]
      have "fills (place g r c num) g2" .
      moreover from Cons.prems(1) have "1 \<le> num" "num \<le> 9" by simp_all
      ultimately show ?thesis unfolding g' using wf rc True
        by (intro fills_place_back[of g r c num g2])
    next
      case False
      with True s1 eq Cons.prems
      have "solve_nums g r c nums = Some (True, g')" by simp
      with Cons show ?thesis by simp
    qed
  qed
qed

lemma solve_fills: "wf_grid g \<Longrightarrow> solve g = Some (True, g') \<Longrightarrow> fills g g'"
proof (induction g arbitrary: g' rule: measure_induct_rule[where f = empties])
  case (less g)
  from find_empty_wf[OF less.prems(1)] obtain res where res: "find_empty g = Some res" by blast
  show ?case
  proof (cases res)
    case None
    with res less.prems have "g' = g" by (simp add: solve.simps)
    with res None less.prems find_empty_None_filled show ?thesis by (simp add: fills_self)
  next
    case (Some p)
    obtain r c where p: "p = (r, c)" by (cases p)
    from res Some p have fe: "find_empty g = Some (Some (r, c))" by simp
    note rc = find_empty_Some_wf[OF fe less.prems(1)]
    from fe less.prems(2) have sn: "solve_nums g r c [1..9] = Some (True, g')"
      by (simp add: solve.simps)
    show ?thesis
    proof (rule solve_nums_fills[OF _ less.prems(1) rc _ sn])
      show "\<forall>n \<in> set [1..9]. 1 \<le> n \<and> n \<le> (9::int)" by simp
    next
      fix g1 g'' assume a: "wf_grid g1" "empties g1 < empties g" "solve g1 = Some (True, g'')"
      show "fills g1 g''"
        by (rule less.IH[OF a(2) a(1) a(3)])
    qed
  qed
qed

subsection \<open>A filling makes the answer true\<close>

lemma solve_nums_complete:
  assumes ih: "\<And>g1. wf_grid g1 \<Longrightarrow> empties g1 < empties g \<Longrightarrow> fills g1 h \<Longrightarrow>
                 \<exists>g'. solve g1 = Some (True, g')"
    and wf: "wf_grid g" and rc: "r < 9" "c < 9" "val (cell_of g (r, c)) = None"
    and f: "fills g h" and hv: "val (cell_of h (r, c)) = Some v"
    and "v \<in> set nums"
  shows "\<exists>g'. solve_nums g r c nums = Some (True, g')"
  using assms(8)
proof (induction nums)
  case Nil
  then show ?case by simp
next
  case (Cons num nums)
  note eq = solve_nums_Cons_wf[OF wf rc, of num nums]
  from solve_total_wf[OF wf_grid_place[OF wf]] obtain f1 g2 where
    s1: "solve (place g r c num) = Some (f1, g2)" by blast
  show ?case
  proof (cases "valid_at g r c num \<and> f1")
    case True
    with eq s1 show ?thesis by simp
  next
    case False
    with eq s1 have e: "solve_nums g r c (num # nums) = solve_nums g r c nums" by auto
    have "v \<noteq> num"
    proof
      assume vn: "v = num"
      have va: "valid_at g r c num"
        using valid_at_fills[OF wf rc f hv] vn by simp
      from ih[OF wf_grid_place[OF wf] empties_place[OF wf rc], of num]
        fills_place[OF wf rc(1,2) f hv] vn
      obtain g' where "solve (place g r c num) = Some (True, g')" by auto
      with s1 va False show False by simp
    qed
    with Cons.prems have "v \<in> set nums" by simp
    from Cons.IH[OF this] e show ?thesis by simp
  qed
qed

lemma solve_complete: "wf_grid g \<Longrightarrow> fills g h \<Longrightarrow> \<exists>g'. solve g = Some (True, g')"
proof (induction g rule: measure_induct_rule[where f = empties])
  case (less g)
  from find_empty_wf[OF less.prems(1)] obtain res where res: "find_empty g = Some res" by blast
  show ?case
  proof (cases res)
    case None
    with res show ?thesis by (simp add: solve.simps)
  next
    case (Some p)
    obtain r c where p: "p = (r, c)" by (cases p)
    from res Some p have fe: "find_empty g = Some (Some (r, c))" by simp
    note rc = find_empty_Some_wf[OF fe less.prems(1)]
    from fills_value[OF less.prems(2) rc] obtain v where
      hv: "val (cell_of h (r, c)) = Some v" and v: "1 \<le> v" "v \<le> 9" by blast
    from v have vin: "v \<in> set [1..9]" by simp
    have "\<exists>g'. solve_nums g r c [1..9] = Some (True, g')"
    proof (rule solve_nums_complete[OF _ less.prems(1) rc less.prems(2) hv vin])
      fix g1 assume a: "wf_grid g1" "empties g1 < empties g" "fills g1 h"
      show "\<exists>g'. solve g1 = Some (True, g')"
        by (rule less.IH[OF a(2) a(1) a(3)])
    qed
    with fe show ?thesis by (simp add: solve.simps)
  qed
qed

lemma duplicate_not_solved:
  assumes "i < 9" "j1 < 9" "j2 < 9" "j1 \<noteq> j2"
    and "val (cell_of h (i, j1)) = Some v" "val (cell_of h (i, j2)) = Some v"
  shows "\<not> solved_grid h"
proof
  assume "solved_grid h"
  then have "consistent h" by (rule solved_consistent)
  moreover have "row_cells i \<in> set all_units" "(i, j1) \<in> set (row_cells i)"
    "(i, j2) \<in> set (row_cells i)"
    using row_unit[OF assms(1,2)] row_unit[OF assms(1,3)] by simp_all
  ultimately have "\<forall>q \<in> set (row_cells i). q \<noteq> (i, j1) \<longrightarrow> val (cell_of h q) \<noteq> Some v"
    using assms(5) unfolding consistent_iff by blast
  with \<open>(i, j2) \<in> set (row_cells i)\<close> assms(4,6) show False by auto
qed

text \<open>
  Claim C7. On a nine by nine grid \<open>solve\<close> returns; the \<open>given\<close> flags and the candidate
  lists of the grid it leaves are those of the grid it was given, so only \<open>value\<close> fields
  were written; and when it returns false the grid is the one it was given: every value
  set during the search has been set back to None. In the grid of \<open>p_backtrack\<close> the
  search places 5 in the first cell, fails on the second cell, sets the first cell back to
  None, places 9, fails again and sets it back again; in the grid of \<open>p_two\<close> it
  succeeds and leaves the values it placed.
\<close>

theorem solve_only_values_and_restores:
  assumes "wf_grid g"
  shows "\<exists>found g'. solve g = Some (found, g') \<and>
           map (map given) g' = map (map given) g \<and>
           map (map candidates) g' = map (map candidates) g \<and>
           (\<not> found \<longrightarrow> g' = g)"
proof -
  from solve_total(1)[OF assms] obtain found g' where s: "solve g = Some (found, g')" by blast
  from solve_frame(1)[OF s] s show ?thesis by (auto simp: same_flags_def)
qed

theorem solve_only_values_and_restores_witness:
  "wf_grid (puzzle_grid p_backtrack) \<and>
   find_empty (puzzle_grid p_backtrack) = Some (Some (0, 0)) \<and>
   map (\<lambda>n. is_valid (puzzle_grid p_backtrack) n (0, 0)) [1..9] =
     map Some [False, False, False, False, True, False, False, False, True] \<and>
   modify_cell (puzzle_grid p_backtrack) 0 0 (\<lambda>x. x\<lparr>val := Some 5\<rparr>) =
     Some (place (puzzle_grid p_backtrack) 0 0 5) \<and>
   place (puzzle_grid p_backtrack) 0 0 5 \<noteq> puzzle_grid p_backtrack \<and>
   solve (place (puzzle_grid p_backtrack) 0 0 5) =
     Some (False, place (puzzle_grid p_backtrack) 0 0 5) \<and>
   modify_cell (place (puzzle_grid p_backtrack) 0 0 5) 0 0 (\<lambda>x. x\<lparr>val := None\<rparr>) =
     Some (puzzle_grid p_backtrack) \<and>
   modify_cell (puzzle_grid p_backtrack) 0 0 (\<lambda>x. x\<lparr>val := Some 9\<rparr>) =
     Some (place (puzzle_grid p_backtrack) 0 0 9) \<and>
   place (puzzle_grid p_backtrack) 0 0 9 \<noteq> puzzle_grid p_backtrack \<and>
   solve (place (puzzle_grid p_backtrack) 0 0 9) =
     Some (False, place (puzzle_grid p_backtrack) 0 0 9) \<and>
   modify_cell (place (puzzle_grid p_backtrack) 0 0 9) 0 0 (\<lambda>x. x\<lparr>val := None\<rparr>) =
     Some (puzzle_grid p_backtrack) \<and>
   solve (puzzle_grid p_backtrack) = Some (False, puzzle_grid p_backtrack) \<and>
   (\<exists>found g'. solve (puzzle_grid p_backtrack) = Some (found, g') \<and>
      map (map given) g' = map (map given) (puzzle_grid p_backtrack) \<and>
      map (map candidates) g' = map (map candidates) (puzzle_grid p_backtrack) \<and>
      (\<not> found \<longrightarrow> g' = puzzle_grid p_backtrack)) \<and>
   wf_grid (puzzle_grid p_two) \<and>
   map_option fst (solve (puzzle_grid p_two)) = Some True \<and>
   solution_grid p_two \<noteq> puzzle_grid p_two \<and>
   (\<exists>found g'. solve (puzzle_grid p_two) = Some (found, g') \<and>
      map (map given) g' = map (map given) (puzzle_grid p_two) \<and>
      map (map candidates) g' = map (map candidates) (puzzle_grid p_two) \<and>
      (\<not> found \<longrightarrow> g' = puzzle_grid p_two))"
proof -
  have wf: "wf_grid (puzzle_grid p_backtrack)" by code_simp
  have fe: "find_empty (puzzle_grid p_backtrack) = Some (Some (0, 0))" by code_simp
  have v: "map (\<lambda>n. is_valid (puzzle_grid p_backtrack) n (0, 0)) [1..9] =
             map Some [False, False, False, False, True, False, False, False, True]"
    by code_simp
  have m5: "modify_cell (puzzle_grid p_backtrack) 0 0 (\<lambda>x. x\<lparr>val := Some 5\<rparr>) =
              Some (place (puzzle_grid p_backtrack) 0 0 5)"
    by code_simp
  have n5: "place (puzzle_grid p_backtrack) 0 0 5 \<noteq> puzzle_grid p_backtrack" by code_simp
  have s5: "solve (place (puzzle_grid p_backtrack) 0 0 5) =
              Some (False, place (puzzle_grid p_backtrack) 0 0 5)"
    by code_simp
  have r5: "modify_cell (place (puzzle_grid p_backtrack) 0 0 5) 0 0 (\<lambda>x. x\<lparr>val := None\<rparr>) =
              Some (puzzle_grid p_backtrack)"
    by code_simp
  have m9: "modify_cell (puzzle_grid p_backtrack) 0 0 (\<lambda>x. x\<lparr>val := Some 9\<rparr>) =
              Some (place (puzzle_grid p_backtrack) 0 0 9)"
    by code_simp
  have n9: "place (puzzle_grid p_backtrack) 0 0 9 \<noteq> puzzle_grid p_backtrack" by code_simp
  have s9: "solve (place (puzzle_grid p_backtrack) 0 0 9) =
              Some (False, place (puzzle_grid p_backtrack) 0 0 9)"
    by code_simp
  have r9: "modify_cell (place (puzzle_grid p_backtrack) 0 0 9) 0 0 (\<lambda>x. x\<lparr>val := None\<rparr>) =
              Some (puzzle_grid p_backtrack)"
    by code_simp
  have s: "solve (puzzle_grid p_backtrack) = Some (False, puzzle_grid p_backtrack)"
    by code_simp
  have wf2: "wf_grid (puzzle_grid p_two)" by code_simp
  have t: "map_option fst (solve (puzzle_grid p_two)) = Some True" by code_simp
  have n2: "solution_grid p_two \<noteq> puzzle_grid p_two" by code_simp
  note a = solve_only_values_and_restores[OF wf]
  note b = solve_only_values_and_restores[OF wf2]
  from wf fe v m5 n5 s5 r5 m9 n9 s9 r9 s a wf2 t n2 b show ?thesis by (intro conjI)
qed
text \<open>
  Claim C1 fails on the code: \<open>solve\<close> never checks the cells that are filled on entry
  against each other. On the grid of eighty-one 5s no cell is empty, so \<open>solve\<close> returns
  true at once and leaves the grid as it is; the grid is not solved.
\<close>

theorem solve_true_on_fives:
  "solve (puzzle_grid p_fives) = Some (True, puzzle_grid p_fives) \<and>
   completely_filled (puzzle_grid p_fives) \<and>
   \<not> unit_complete (puzzle_grid p_fives) (row_cells 0) \<and>
   \<not> solved_grid (puzzle_grid p_fives)"
  by code_simp

text \<open>
  Claim C1 as amended. For a nine by nine grid that is consistent on entry (every filled
  cell holds a number from 1 to 9 that no other cell of its row, column or block holds),
  if \<open>solve\<close> returns true then the grid it leaves is completely filled, and every row,
  every column and every block contains each of the numbers 1 to 9 exactly once.
\<close>

theorem solve_true_solved:
  assumes "wf_grid g" "consistent g" "solve g = Some (True, g')"
  shows "completely_filled g' \<and> list_all (unit_complete g') all_units"
  using solve_consistent[OF assms] solved_of_consistent[of g']
  by (simp add: solved_grid_def)

theorem solve_true_solved_witness:
  "wf_grid (puzzle_grid p_two) \<and> consistent (puzzle_grid p_two) \<and>
   solve (puzzle_grid p_two) = Some (True, solution_grid p_two) \<and>
   completely_filled (solution_grid p_two) \<and>
   list_all (unit_complete (solution_grid p_two)) all_units"
proof -
  have wf: "wf_grid (puzzle_grid p_two)" by code_simp
  have co: "consistent (puzzle_grid p_two)" by code_simp
  have s: "solve (puzzle_grid p_two) = Some (True, solution_grid p_two)" by code_simp
  from solve_true_solved[OF wf co s] wf co s show ?thesis by simp
qed

text \<open>
  Claim C3, at the input where the code departs from it. In the solved grid without its
  first cell, that cell has the single candidate 5 after the recomputation of candidates.
  The pass of \<open>SingleCandidateStrategy\<close> sets its value to 5 and reports a change, and the
  candidate list of the cell is still \<open>[5]\<close> when the pass returns.
\<close>

theorem single_candidate_leaves_candidates:
  "map_option (\<lambda>c. (val c, candidates c)) (cell_at (candidates_grid p_one) 0 0) = Some (None, [5]) \<and>
   map_option (\<lambda>(changed, g'). (changed, map_option (\<lambda>c. (val c, candidates c)) (cell_at g' 0 0)))
     (apply_strategy SingleCandidate (candidates_grid p_one)) = Some (True, Some (Some 5, [5]))"
  by code_simp

text \<open>
  Claim C2 fails on the code: \<open>guided_solver\<close> has no stagnation exit. On the puzzle
  \<open>p_two\<close> no strategy of the list makes progress on the grid of candidates and the cell
  (6,3) is unresolved; after the ten passes of a full cycle (nine answers \<open>y\<close>) the loop is
  at the prompt with the strategy index back at 0 and the same grid, with no signal, and
  after two more cycles it is there again.
\<close>

theorem guided_solver_cycles_without_signal:
  "no_progress (candidates_grid p_two) \<and>
   find_empty (candidates_grid p_two) = Some (Some (6, 3)) \<and>
   guided_solver (puzzle_grid p_two) (replicate 9 True) =
     Some (None, \<lparr>cells = candidates_grid p_two, strategies_idx = 0,
                   prev_changes = [], last_changes = []\<rparr>) \<and>
   guided_solver (puzzle_grid p_two) (replicate 29 True) =
     Some (None, \<lparr>cells = candidates_grid p_two, strategies_idx = 0,
                   prev_changes = [], last_changes = []\<rparr>)"
proof -
  have ne: "find_empty (candidates_grid p_two) \<noteq> Some None" by (simp add: p_two_facts)
  have i0: "0 < length strateties" by (simp add: strateties_def)
  have m9: "(0 + 9 + 1) mod length strateties = 0" "(0 + 29 + 1) mod length strateties = 0"
    by (simp_all add: strateties_def)
  note loop = guided_loop_no_progress[OF p_two_facts(2) p_two_no_progress ne i0]
  show ?thesis
    using loop[of 9 "[]" "[]"] loop[of 29 "[]" "[]"]
    by (simp only: m9 guided_solver_def guided_start_def p_two_facts p_two_no_progress
        option.case simp_thms)
qed

text \<open>
  Claim C2 as amended. When every strategy reports no change on the grid and unresolved
  cells remain, the loop never ends by itself: after any number of answers \<open>y\<close> it is at
  the prompt again, with the same grid, the strategy index advanced round the list (back to
  0 after the last strategy) and no signal. It ends only when the caller answers \<open>n\<close>,
  with the signal \<open>Stopped\<close>.
\<close>

theorem guided_loop_never_stagnant:
  assumes "wf_grid g" "no_progress g" "find_empty g \<noteq> Some None" "idx < length strateties"
  shows "guided_loop (replicate n True)
           \<lparr>cells = g, strategies_idx = idx, prev_changes = pc, last_changes = lc\<rparr> =
         Some (None, \<lparr>cells = g, strategies_idx = (idx + n + 1) mod length strateties,
                       prev_changes = [], last_changes = []\<rparr>) \<and>
         guided_loop (replicate n True @ [False])
           \<lparr>cells = g, strategies_idx = idx, prev_changes = pc, last_changes = lc\<rparr> =
         Some (Some Stopped, \<lparr>cells = g, strategies_idx = (idx + n + 1) mod length strateties,
                       prev_changes = [], last_changes = []\<rparr>)"
  using guided_loop_no_progress[OF assms] guided_loop_no_progress_stop[OF assms] by simp

theorem guided_loop_never_stagnant_witness:
  "wf_grid (candidates_grid p_two) \<and> no_progress (candidates_grid p_two) \<and>
   find_empty (candidates_grid p_two) \<noteq> Some None \<and> 0 < length strateties \<and>
   guided_loop (replicate 9 True) (guided_start (candidates_grid p_two)) =
     Some (None, guided_start (candidates_grid p_two)) \<and>
   guided_loop (replicate 9 True @ [False]) (guided_start (candidates_grid p_two)) =
     Some (Some Stopped, guided_start (candidates_grid p_two))"
proof -
  have ne: "find_empty (candidates_grid p_two) \<noteq> Some None" by (simp add: p_two_facts)
  have i0: "0 < length strateties" by (simp add: strateties_def)
  have m9: "(0 + 9 + 1) mod length strateties = 0" by (simp add: strateties_def)
  from guided_loop_never_stagnant[OF p_two_facts(2) p_two_no_progress ne i0, of 9 "[]" "[]"]
    p_two_facts(2) p_two_no_progress ne i0
  show ?thesis
    by (simp only: m9 guided_start_def simp_thms)
qed

text \<open>
  Claim C5 fails on the code. In the grid of \<open>p_dup\<close> the cells (0,0) and (0,1) both hold
  3 and only the last cell is empty; \<open>solve\<close> fills it and returns true.
\<close>

theorem solve_true_with_duplicate:
  "val (cell_of (puzzle_grid p_dup) (0, 0)) = Some 3 \<and>
   val (cell_of (puzzle_grid p_dup) (0, 1)) = Some 3 \<and>
   map_option fst (solve (puzzle_grid p_dup)) = Some True \<and>
   map_option (\<lambda>(found, g'). val (cell_of g' (8, 8))) (solve (puzzle_grid p_dup)) = Some (Some 9)"
  by code_simp

text \<open>
  Claim C5 as amended. For a nine by nine grid in which two cells of a row hold the same
  value, \<open>solve\<close> returns and does not look at the conflict. It returns true exactly when
  the empty cells can be filled, the resolved cells keeping their values, so that each
  filled cell holds a number from 1 to 9 that no other cell of its row, its column and its
  block holds; the grid it then leaves is such a filling, the two cells still hold the
  same value in it, and it is not a solved grid. It returns false exactly when there is no
  such filling, and then the grid is as it was.
\<close>

theorem solve_keeps_duplicate:
  assumes "wf_grid g" "i < 9" "j1 < 9" "j2 < 9" "j1 \<noteq> j2"
    and "val (cell_of g (i, j1)) = Some v" "val (cell_of g (i, j2)) = Some v"
  shows "\<exists>found g'. solve g = Some (found, g') \<and>
           found = (\<exists>h. fills g h) \<and>
           (found \<longrightarrow> fills g g' \<and> val (cell_of g' (i, j1)) = Some v \<and>
              val (cell_of g' (i, j2)) = Some v \<and> \<not> solved_grid g') \<and>
           (\<not> found \<longrightarrow> g' = g)"
proof -
  from solve_total_wf[OF assms(1)] obtain found g' where s: "solve g = Some (found, g')"
    by blast
  from solve_keeps[OF assms(1) s] assms(2-4,6,7)
  have v: "val (cell_of g' (i, j1)) = Some v" "val (cell_of g' (i, j2)) = Some v"
    by (auto simp: keeps_values_iff)
  from duplicate_not_solved[OF assms(2-5) v] have ns: "\<not> solved_grid g'" .
  have "found = (\<exists>h. fills g h)"
  proof
    assume found
    with s have "solve g = Some (True, g')" by simp
    from solve_fills[OF assms(1) this] show "\<exists>h. fills g h" ..
  next
    assume "\<exists>h. fills g h"
    then obtain h where "fills g h" ..
    from solve_complete[OF assms(1) this] s show found by auto
  qed
  moreover have "found \<longrightarrow> fills g g'"
    using s solve_fills[OF assms(1), of g'] by auto
  moreover have "\<not> found \<longrightarrow> g' = g"
    using solve_frame(1)[OF s] by simp
  ultimately show ?thesis using s v ns by blast
qed

theorem solve_keeps_duplicate_witness:
  "wf_grid (puzzle_grid p_dup) \<and> (0::nat) < 9 \<and> (1::nat) < 9 \<and> (0::nat) \<noteq> 1 \<and>
   val (cell_of (puzzle_grid p_dup) (0, 0)) = Some 3 \<and>
   val (cell_of (puzzle_grid p_dup) (0, 1)) = Some 3 \<and>
   (\<exists>g'. solve (puzzle_grid p_dup) = Some (True, g') \<and> fills (puzzle_grid p_dup) g' \<and>
      val (cell_of g' (0, 0)) = Some 3 \<and> val (cell_of g' (0, 1)) = Some 3 \<and>
      \<not> solved_grid g') \<and>
   (\<exists>h. fills (puzzle_grid p_dup) h) \<and>
   wf_grid (puzzle_grid p_dup_stuck) \<and>
   val (cell_of (puzzle_grid p_dup_stuck) (0, 0)) = Some 3 \<and>
   val (cell_of (puzzle_grid p_dup_stuck) (0, 1)) = Some 3 \<and>
   solve (puzzle_grid p_dup_stuck) = Some (False, puzzle_grid p_dup_stuck) \<and>
   (\<nexists>h. fills (puzzle_grid p_dup_stuck) h)"
proof -
  have wf: "wf_grid (puzzle_grid p_dup)" by code_simp
  have v0: "val (cell_of (puzzle_grid p_dup) (0, 0)) = Some 3" by code_simp
  have v1: "val (cell_of (puzzle_grid p_dup) (0, 1)) = Some 3" by code_simp
  have f: "map_option fst (solve (puzzle_grid p_dup)) = Some True" by code_simp
  from solve_keeps_duplicate[OF wf _ _ _ _ v0 v1] obtain found g' where
    r: "solve (puzzle_grid p_dup) = Some (found, g')"
      "found = (\<exists>h. fills (puzzle_grid p_dup) h)"
      "found \<longrightarrow> fills (puzzle_grid p_dup) g' \<and> val (cell_of g' (0, 0)) = Some 3 \<and>
         val (cell_of g' (0, 1)) = Some 3 \<and> \<not> solved_grid g'"
    by auto
  from r(1) f have fo: "found" by simp
  with r have a: "\<exists>g'. solve (puzzle_grid p_dup) = Some (True, g') \<and>
      fills (puzzle_grid p_dup) g' \<and>
      val (cell_of g' (0, 0)) = Some 3 \<and> val (cell_of g' (0, 1)) = Some 3 \<and>
      \<not> solved_grid g'" by auto
  from fo r(2) have b: "\<exists>h. fills (puzzle_grid p_dup) h" by simp
  have wf2: "wf_grid (puzzle_grid p_dup_stuck)" by code_simp
  have w0: "val (cell_of (puzzle_grid p_dup_stuck) (0, 0)) = Some 3" by code_simp
  have w1: "val (cell_of (puzzle_grid p_dup_stuck) (0, 1)) = Some 3" by code_simp
  have s2: "solve (puzzle_grid p_dup_stuck) = Some (False, puzzle_grid p_dup_stuck)"
    by code_simp
  from solve_keeps_duplicate[OF wf2 _ _ _ _ w0 w1] s2
  have c: "\<nexists>h. fills (puzzle_grid p_dup_stuck) h" by auto
  from wf v0 v1 a b wf2 w0 w1 s2 c show ?thesis by simp
qed

text \<open>
  Claim C6. \<open>solve\<close> is a function of the grid. The cell it fills is the first one in
  row-major order without a value. For a nine by nine grid \<open>g\<close> and every solved grid
  \<open>h\<close> that keeps the values of \<open>g\<close> (a completion of the puzzle), \<open>solve\<close> returns true
  with a solved grid that keeps the values of \<open>g\<close> and whose values in row-major order
  are lexicographically at most those of \<open>h\<close>: among the completions it finds the first.
\<close>

theorem solve_lexicographically_first:
  assumes "wf_grid g" "solved_grid h" "keeps_values g h"
  shows "(\<exists>g'. solve g = Some (True, g') \<and> solved_grid g' \<and> keeps_values g g' \<and>
            lex_le (grid_values g') (grid_values h)) \<and>
         (\<forall>p. find_empty g = Some (Some p) \<longrightarrow>
            (\<exists>pre post. all_cells = pre @ p # post \<and> val (cell_of g p) = None \<and>
               (\<forall>q \<in> set pre. val (cell_of g q) \<noteq> None)))"
proof
  have hc: "consistent h" using assms(2) by (rule solved_consistent)
  have hf: "completely_filled h" using assms(2) by (simp add: solved_grid_def)
  from solve_first[OF assms(1) hc hf assms(3)] obtain g' where
    s: "solve g = Some (True, g')" and le: "lex_le (grid_values g') (grid_values h)" by blast
  have "consistent g" using hc assms(3) by (rule consistent_below)
  from solve_consistent[OF assms(1) this s] have "solved_grid g'"
    by (simp add: solved_of_consistent)
  moreover have "keeps_values g g'" using assms(1) s by (rule solve_keeps)
  ultimately show "\<exists>g'. solve g = Some (True, g') \<and> solved_grid g' \<and> keeps_values g g' \<and>
            lex_le (grid_values g') (grid_values h)"
    using s le by blast
next
  show "\<forall>p. find_empty g = Some (Some p) \<longrightarrow>
            (\<exists>pre post. all_cells = pre @ p # post \<and> val (cell_of g p) = None \<and>
               (\<forall>q \<in> set pre. val (cell_of g q) \<noteq> None))"
    using find_empty_split[OF _ assms(1)] by blast
qed

theorem solve_lexicographically_first_witness:
  "wf_grid (puzzle_grid p_two) \<and> solved_grid (puzzle_grid p_solved) \<and>
   keeps_values (puzzle_grid p_two) (puzzle_grid p_solved) \<and>
   solved_grid (puzzle_grid p_two_other) \<and>
   keeps_values (puzzle_grid p_two) (puzzle_grid p_two_other) \<and>
   grid_values (puzzle_grid p_two_other) \<noteq> grid_values (puzzle_grid p_solved) \<and>
   solve (puzzle_grid p_two) = Some (True, solution_grid p_two) \<and>
   grid_values (solution_grid p_two) = grid_values (puzzle_grid p_two_other) \<and>
   (\<exists>g'. solve (puzzle_grid p_two) = Some (True, g') \<and> solved_grid g' \<and>
      keeps_values (puzzle_grid p_two) g' \<and>
      lex_le (grid_values g') (grid_values (puzzle_grid p_solved)))"
proof -
  have wf: "wf_grid (puzzle_grid p_two)" by code_simp
  have sh: "solved_grid (puzzle_grid p_solved)" by code_simp
  have kh: "keeps_values (puzzle_grid p_two) (puzzle_grid p_solved)" by code_simp
  have so: "solved_grid (puzzle_grid p_two_other)" by code_simp
  have ko: "keeps_values (puzzle_grid p_two) (puzzle_grid p_two_other)" by code_simp
  have ne: "grid_values (puzzle_grid p_two_other) \<noteq> grid_values (puzzle_grid p_solved)"
    by code_simp
  have s: "solve (puzzle_grid p_two) = Some (True, solution_grid p_two)" by code_simp
  have e: "grid_values (solution_grid p_two) = grid_values (puzzle_grid p_two_other)"
    by code_simp
  from solve_lexicographically_first[OF wf sh kh] wf sh kh so ko ne s e
  show ?thesis by blast
qed

text \<open>
  Claim C4 fails on the code. After \<open>get_cell_candidates\<close> on the puzzle \<open>p_pairs\<close> the block
  at (3,3) has the pair (3,5), (4,5) with candidates 1 and 3, and the block at (3,6), which
  is scanned after it, has the pair (3,8), (4,8) with the same candidates. One pass of the
  subgrid strategy eliminates in both blocks: cell (5,5) of the first goes from [3, 4] to
  [4] and cell (4,6) of the second from [1, 7] to [7].
\<close>

theorem naked_pair_subgrid_acts_in_two_blocks:
  "first_pair (unit_pairs (candidates_grid p_pairs) (block_cells 3 3)) =
     Some ((3, 5), (4, 5), [1, 3]) \<and>
   first_pair (unit_pairs (candidates_grid p_pairs) (block_cells 3 6)) =
     Some ((3, 8), (4, 8), [1, 3]) \<and>
   (5, 5) \<in> set (block_cells 3 3) \<and> (4, 6) \<in> set (block_cells 3 6) \<and>
   candidates (cell_of (candidates_grid p_pairs) (5, 5)) = [3, 4] \<and>
   candidates (cell_of (candidates_grid p_pairs) (4, 6)) = [1, 7] \<and>
   map_option (\<lambda>(changed, g'). (changed, candidates (cell_of g' (5, 5)),
                                      candidates (cell_of g' (4, 6))))
     (naked_pair_subgrid_apply (candidates_grid p_pairs)) = Some (True, [4], [7])"
  by code_simp

text \<open>
  Claim C4 as amended. On a nine by nine grid a pass of the naked-pair subgrid strategy
  returns, and it acts on at most one pair in each block, not in the whole pass: in every
  one of the nine blocks, the first pair of that block on the entry grid, if the block has
  one, is acted on, its two numbers being removed from the candidates of every other cell
  of the block without a value; nothing else changes. The scan of a block stops at its
  first pair and the pass goes on with the next block, as in the row and the column
  strategies.
\<close>

theorem naked_pair_subgrid_one_pair_per_block:
  assumes "wf_grid g"
  shows "\<exists>changed g'. naked_pair_subgrid_apply g = Some (changed, g') \<and>
           (\<forall>u \<in> set block_units. \<forall>q \<in> set u.
              cell_of g' q = (cell_of g q)\<lparr>candidates := pair_eliminated g u q\<rparr>)"
proof -
  have ig: "\<forall>u \<in> set block_units. in_grid u" by (blast intro: in_grid_block_units)
  from naked_pair_units_cells[OF assms ig disjoint_block_units, of False]
  show ?thesis unfolding naked_pair_subgrid_apply_def by blast
qed

theorem naked_pair_subgrid_one_pair_per_block_witness:
  "wf_grid (candidates_grid p_pairs) \<and>
   block_cells 3 3 \<in> set block_units \<and> block_cells 3 6 \<in> set block_units \<and>
   pair_eliminated (candidates_grid p_pairs) (block_cells 3 3) (5, 5) = [4] \<and>
   pair_eliminated (candidates_grid p_pairs) (block_cells 3 6) (4, 6) = [7] \<and>
   (\<exists>changed g'. naked_pair_subgrid_apply (candidates_grid p_pairs) = Some (changed, g') \<and>
      candidates (cell_of g' (5, 5)) = [4] \<and> candidates (cell_of g' (4, 6)) = [7] \<and>
      (\<forall>u \<in> set block_units. \<forall>q \<in> set u.
         cell_of g' q = (cell_of (candidates_grid p_pairs) q)
           \<lparr>candidates := pair_eliminated (candidates_grid p_pairs) u q\<rparr>))"
proof -
  have wf: "wf_grid (candidates_grid p_pairs)" by code_simp
  have b1: "block_cells 3 3 \<in> set block_units" by code_simp
  have b2: "block_cells 3 6 \<in> set block_units" by code_simp
  have q1: "(5, 5) \<in> set (block_cells 3 3)" by code_simp
  have q2: "(4, 6) \<in> set (block_cells 3 6)" by code_simp
  have e1: "pair_eliminated (candidates_grid p_pairs) (block_cells 3 3) (5, 5) = [4]"
    by code_simp
  have e2: "pair_eliminated (candidates_grid p_pairs) (block_cells 3 6) (4, 6) = [7]"
    by code_simp
  from naked_pair_subgrid_one_pair_per_block[OF wf] obtain changed g' where
    r: "naked_pair_subgrid_apply (candidates_grid p_pairs) = Some (changed, g')"
    and a: "\<forall>u \<in> set block_units. \<forall>q \<in> set u.
         cell_of g' q = (cell_of (candidates_grid p_pairs) q)
           \<lparr>candidates := pair_eliminated (candidates_grid p_pairs) u q\<rparr>"
    by blast
  from a b1 q1 have "cell_of g' (5, 5) = (cell_of (candidates_grid p_pairs) (5, 5))
           \<lparr>candidates := pair_eliminated (candidates_grid p_pairs) (block_cells 3 3) (5, 5)\<rparr>"
    by blast
  with e1 have c1: "candidates (cell_of g' (5, 5)) = [4]" by simp
  from a b2 q2 have "cell_of g' (4, 6) = (cell_of (candidates_grid p_pairs) (4, 6))
           \<lparr>candidates := pair_eliminated (candidates_grid p_pairs) (block_cells 3 6) (4, 6)\<rparr>"
    by blast
  with e2 have c2: "candidates (cell_of g' (4, 6)) = [7]" by simp
  from wf b1 b2 e1 e2 r c1 c2 a show ?thesis by blast
qed

text \<open>
  Claim C8. On a nine by nine grid each of the three hidden-single strategies (block, row,
  column) returns, and its result agrees with the pass of the specification over the
  units of its partition: every cell of the grid it leaves has the value and the
  candidates that \<open>hidden_single_pass\<close> gives it (each fill sets the value to the number
  and clears the candidates, and every fill of the pass is applied), and it reports
  \<open>changed\<close> exactly when the pass made at least one fill.
\<close>

theorem hidden_single_strategies_refine:
  assumes "wf_grid g"
  shows "(\<exists>changed g'. subgrid_single_apply g = Some (changed, g') \<and>
            same_visible g' (snd (hidden_single_pass block_units g)) \<and>
            changed = (0 < fst (hidden_single_pass block_units g))) \<and>
         (\<exists>changed g'. row_single_apply g = Some (changed, g') \<and>
            same_visible g' (snd (hidden_single_pass row_units g)) \<and>
            changed = (0 < fst (hidden_single_pass row_units g))) \<and>
         (\<exists>changed g'. column_single_apply g = Some (changed, g') \<and>
            same_visible g' (snd (hidden_single_pass col_units g)) \<and>
            changed = (0 < fst (hidden_single_pass col_units g)))"
proof -
  note sv = same_visible_refl[of g]
  have b: "\<forall>un \<in> set (List.product block_units [1..9]). in_grid (fst un)"
    by (rule product_units_in_grid) (rule in_grid_block_units)
  have r: "\<forall>un \<in> set (List.product row_units [1..9]). in_grid (fst un)"
    by (rule product_units_in_grid) (rule in_grid_row_units)
  have c: "\<forall>un \<in> set (List.product col_units [1..9]). in_grid (fst un)"
    by (rule product_units_in_grid) (rule in_grid_col_units)
  from hidden_single_refines[OF assms assms sv b, of False 0]
    hidden_single_refines[OF assms assms sv r, of False 0]
    hidden_single_refines[OF assms assms sv c, of False 0]
  show ?thesis
    unfolding subgrid_single_apply_def row_single_apply_def column_single_apply_def
      hidden_single_pass_def
    by simp
qed

theorem hidden_single_strategies_refine_witness:
  "wf_grid (candidates_grid p_pairs) \<and>
   fst (hidden_single_pass block_units (candidates_grid p_pairs)) = 4 \<and>
   (\<exists>changed g'. subgrid_single_apply (candidates_grid p_pairs) = Some (changed, g') \<and>
      same_visible g' (snd (hidden_single_pass block_units (candidates_grid p_pairs))) \<and>
      changed) \<and>
   (\<exists>changed g'. row_single_apply (candidates_grid p_pairs) = Some (changed, g') \<and>
      same_visible g' (snd (hidden_single_pass row_units (candidates_grid p_pairs)))) \<and>
   (\<exists>changed g'. column_single_apply (candidates_grid p_pairs) = Some (changed, g') \<and>
      same_visible g' (snd (hidden_single_pass col_units (candidates_grid p_pairs))))"
proof -
  have wf: "wf_grid (candidates_grid p_pairs)" by code_simp
  have n: "fst (hidden_single_pass block_units (candidates_grid p_pairs)) = 4" by code_simp
  from hidden_single_strategies_refine[OF wf] wf n show ?thesis by auto
qed

text \<open>
  Claim C9. On a nine by nine grid whose candidate lists hold no number twice (they
  stand for sets), \<open>remove_filled_candidates\<close> for positions inside the grid returns, and
  a second call with the same positions on the grid it leaves returns that same grid:
  the second call changes nothing.
\<close>

theorem remove_filled_candidates_idempotent:
  assumes "wf_grid g" "distinct_candidates g" "in_grid filled"
  shows "\<exists>g1. remove_filled_candidates g filled = Some g1 \<and>
              remove_filled_candidates g1 filled = Some g1"
proof -
  from remove_filled_candidates_total[OF assms(1,3)] obtain g1 where
    r: "remove_filled_candidates g filled = Some g1" by blast
  from remove_filled_candidates_settles[OF assms r]
  have "pruned g g1" "\<forall>p \<in> set filled. settled g1 p" by simp_all
  from remove_filled_candidates_id[OF pruned_wf[OF this(1)] assms(3) this(2)] r
  show ?thesis by blast
qed

theorem remove_filled_candidates_idempotent_witness:
  "wf_grid (after_single p_pairs) \<and> distinct_candidates (after_single p_pairs) \<and>
   in_grid [(5, 2), (8, 6)] \<and>
   remove_filled_candidates (after_single p_pairs) [(5, 2), (8, 6)] \<noteq>
     Some (after_single p_pairs) \<and>
   (\<exists>g1. remove_filled_candidates (after_single p_pairs) [(5, 2), (8, 6)] = Some g1 \<and>
         remove_filled_candidates g1 [(5, 2), (8, 6)] = Some g1)"
proof -
  have wf: "wf_grid (after_single p_pairs)" by code_simp
  have dc: "distinct_candidates (after_single p_pairs)" by code_simp
  have ig: "in_grid [(5, 2), (8, 6)]" by simp
  have ch: "remove_filled_candidates (after_single p_pairs) [(5, 2), (8, 6)] \<noteq>
     Some (after_single p_pairs)" by code_simp
  from remove_filled_candidates_idempotent[OF wf dc ig] wf dc ig ch show ?thesis by blast
qed

text \<open>
  Claim C10. On a nine by nine grid every strategy's pass returns, and so does
  \<open>remove_filled_candidates\<close> for positions inside the grid; in the grid they leave, the
  candidates of each cell are among the candidates the cell had on entry, and every cell
  that had a value on entry still has that value. The recomputation \<open>get_cell_candidates\<close>
  enlarges candidate lists: there is a grid on which it returns a grid where some cell
  has a candidate that the cell did not have on entry (on the solved grid without its
  first cell, that cell has no candidate before and the candidate 5 after).
\<close>

theorem candidates_only_shrink:
  assumes "wf_grid g"
  shows "(\<exists>changed g'. apply_strategy s g = Some (changed, g') \<and> shrinks g g') \<and>
         (in_grid filled \<longrightarrow>
            (\<exists>g'. remove_filled_candidates g filled = Some g' \<and> shrinks g g')) \<and>
         (\<exists>h h' i j c c' n. get_cell_candidates h = Some h' \<and>
            cell_at h i j = Some c \<and> cell_at h' i j = Some c' \<and>
            n \<in> set (candidates c') \<and> n \<notin> set (candidates c))"
proof (intro conjI impI)
  from apply_strategy_total[OF assms] obtain changed g' where
    "apply_strategy s g = Some (changed, g')" by blast
  with apply_strategy_shrinks[OF this]
  show "\<exists>changed g'. apply_strategy s g = Some (changed, g') \<and> shrinks g g'" by blast
next
  assume "in_grid filled"
  from remove_filled_candidates_total[OF assms this] obtain g' where
    "remove_filled_candidates g filled = Some g'" by blast
  with remove_filled_candidates_shrinks[OF this]
  show "\<exists>g'. remove_filled_candidates g filled = Some g' \<and> shrinks g g'" by blast
next
  let ?h = "puzzle_grid p_one"
  have h: "cell_at ?h 0 0 = Some empty_cell" by code_simp
  have "map_option (\<lambda>h'. map_option candidates (cell_at h' 0 0)) (get_cell_candidates ?h)
          = Some (Some [5])"
    by code_simp
  then obtain h' c' where h': "get_cell_candidates ?h = Some h'"
    and c': "cell_at h' 0 0 = Some c'" "candidates c' = [5]"
    by auto
  have "(5::int) \<in> set (candidates c')" "(5::int) \<notin> set (candidates empty_cell)"
    using c' by (simp_all add: empty_cell_def)
  with h h' c'(1)
  show "\<exists>h h' i j c c' n. get_cell_candidates h = Some h' \<and>
          cell_at h i j = Some c \<and> cell_at h' i j = Some c' \<and>
          n \<in> set (candidates c') \<and> n \<notin> set (candidates c)"
    by blast
qed

theorem candidates_only_shrink_witness:
  "wf_grid (candidates_grid p_pairs) \<and> in_grid [(0, 0), (0, 1)] \<and>
   (\<exists>changed g'. apply_strategy NakedPairSubgrid (candidates_grid p_pairs) = Some (changed, g') \<and>
      shrinks (candidates_grid p_pairs) g') \<and>
   (\<exists>g'. remove_filled_candidates (candidates_grid p_pairs) [(0, 0), (0, 1)] = Some g' \<and>
      shrinks (candidates_grid p_pairs) g')"
proof -
  have wf: "wf_grid (candidates_grid p_pairs)" by code_simp
  have ig: "in_grid [(0, 0), (0, 1)]" by simp
  from candidates_only_shrink[OF wf, of NakedPairSubgrid "[(0, 0), (0, 1)]"] wf ig
  show ?thesis by blast
qed

end
